theory Spec2Isabelle
  imports Complex_Main "HOL-Library.AList"
begin

section \<open>Python strings\<close>

text \<open>
  A Python \<open>str\<close> is modelled as a \<open>string\<close> whose characters are code points below 256.
  On these, \<open>str.isspace\<close> holds for the code points 9 to 13, 28 to 32, 133 and 160, and
  \<open>str.splitlines\<close> breaks a line at the code points 10 to 13, 28 to 30 and 133, taking a
  carriage return directly followed by a line feed as one boundary.
\<close>

definition LF :: char where
  "LF = CHR 0x0A"

definition CR :: char where
  "CR = CHR 0x0D"

definition isspace :: "char \<Rightarrow> bool" where
  "isspace c = (let n = (of_char c :: nat) in
     (9 \<le> n \<and> n \<le> 13) \<or> (28 \<le> n \<and> n \<le> 32) \<or> n = 133 \<or> n = 160)"

definition is_linebreak :: "char \<Rightarrow> bool" where
  "is_linebreak c = (let n = (of_char c :: nat) in
     (10 \<le> n \<and> n \<le> 13) \<or> (28 \<le> n \<and> n \<le> 30) \<or> n = 133)"

definition lstrip :: "string \<Rightarrow> string" where
  "lstrip s = dropWhile isspace s"

definition rstrip :: "string \<Rightarrow> string" where
  "rstrip s = rev (dropWhile isspace (rev s))"

definition strip :: "string \<Rightarrow> string" where
  "strip s = rstrip (lstrip s)"

definition startswith :: "string \<Rightarrow> string \<Rightarrow> bool" where
  "startswith s p = (take (length p) s = p)"

text \<open>\<open>s.find(sub)\<close>: the lowest index at which \<open>sub\<close> occurs in \<open>s\<close>; Python's -1 is \<open>None\<close>.\<close>

fun find_str :: "string \<Rightarrow> string \<Rightarrow> nat option" where
  "find_str [] sub = (if sub = [] then Some 0 else None)"
| "find_str (c # cs) sub =
     (if startswith (c # cs) sub then Some 0 else map_option Suc (find_str cs sub))"

text \<open>\<open>sub in s\<close>.\<close>

definition contains :: "string \<Rightarrow> string \<Rightarrow> bool" where
  "contains s sub = (find_str s sub \<noteq> None)"

text \<open>Prepending a character to the first line of an already split text.\<close>

fun push :: "char \<Rightarrow> string list \<Rightarrow> string list" where
  "push c [] = [[c]]"
| "push c (l # ls) = (c # l) # ls"

text \<open>\<open>s.split("\n")\<close>: always at least one piece.\<close>

fun split_nl :: "string \<Rightarrow> string list" where
  "split_nl [] = [[]]"
| "split_nl (c # cs) = (if c = LF then [] # split_nl cs else push c (split_nl cs))"

text \<open>\<open>s.splitlines()\<close>: no piece for the empty text, none after a final line break.\<close>

fun splitlines :: "string \<Rightarrow> string list" where
  "splitlines [] = []"
| "splitlines [c] = (if is_linebreak c then [[]] else [[c]])"
| "splitlines (c # d # cs) =
     (if c = CR \<and> d = LF then [] # splitlines cs
      else if is_linebreak c then [] # splitlines (d # cs)
      else push c (splitlines (d # cs)))"

text \<open>\<open>re.split(r'[\n\r]+', s)\<close>: a run of line feeds and carriage returns is one separator.\<close>

definition is_nlcr :: "char \<Rightarrow> bool" where
  "is_nlcr c = (c = LF \<or> c = CR)"

function re_split_nlcr :: "string \<Rightarrow> string list" where
  "re_split_nlcr [] = [[]]"
| "re_split_nlcr (c # cs) =
     (if is_nlcr c then [] # re_split_nlcr (dropWhile is_nlcr cs)
      else push c (re_split_nlcr cs))"
  by pat_completeness auto
termination
  by (relation "measure length") (auto simp: length_dropWhile_le less_Suc_eq_le)

text \<open>\<open>"\n".join(ls)\<close>.\<close>

fun join_nl :: "string list \<Rightarrow> string" where
  "join_nl [] = []"
| "join_nl [l] = l"
| "join_nl (l # m # ls) = l @ LF # join_nl (m # ls)"

text \<open>\<open>str(n)\<close> for a natural number.\<close>

fun str_nat :: "nat \<Rightarrow> string" where
  "str_nat n = (if n < 10 then [char_of (48 + n)]
     else str_nat (n div 10) @ [char_of (48 + n mod 10)])"

declare str_nat.simps [simp del]

section \<open>The response contract (RQ2/run\_full\_patched.py)\<close>

text \<open>The first position of a line that is \<open># Answer:\<close> once trimmed (the loop with \<open>break\<close>).\<close>

fun first_answer_line :: "string list \<Rightarrow> nat option" where
  "first_answer_line [] = None"
| "first_answer_line (l # ls) =
     (if strip l = ''# Answer:'' then Some 0 else map_option Suc (first_answer_line ls))"

definition validate_and_trim_strict :: "string \<Rightarrow> string" where
  "validate_and_trim_strict text =
     (if text = [] then []
      else
        let t0 = strip text;
            t1 = (if startswith t0 ''# Reasoning:'' then Some t0
                  else (case find_str t0 ''# Reasoning:'' of
                          None \<Rightarrow> None
                        | Some idx_r \<Rightarrow> Some (strip (drop idx_r t0))))
        in case t1 of
             None \<Rightarrow> []
           | Some t \<Rightarrow>
               (case find_str t ''# Answer:'' of
                  None \<Rightarrow> []
                | Some idx_ans \<Rightarrow>
                    let head = rstrip (take idx_ans t);
                        tail_lines = splitlines (drop idx_ans t)
                    in (case first_answer_line tail_lines of
                          None \<Rightarrow> []
                        | Some ans_idx \<Rightarrow>
                            if ans_idx = length tail_lines - 1 then []
                            else
                              let final_word = strip (tail_lines ! (ans_idx + 1))
                              in if final_word \<noteq> ''Secure'' \<and> final_word \<noteq> ''Insecure''
                                 then []
                                 else head @ [LF] @ join_nl (take (ans_idx + 1) tail_lines)
                                      @ [LF] @ final_word)))"

text \<open>The bullets \<open>f"{i+1}. {b}"\<close> of \<open>enumerate(bullets)\<close>, from position \<open>i\<close> on.\<close>

fun numbered :: "nat \<Rightarrow> string list \<Rightarrow> string list" where
  "numbered i [] = []"
| "numbered i (b # bs) = (str_nat (i + 1) @ ''. '' @ b) # numbered (i + 1) bs"

definition coerce_lines :: "string \<Rightarrow> string list" where
  "coerce_lines raw_text =
     map strip (filter (\<lambda>l. strip l \<noteq> []) (re_split_nlcr raw_text))"

definition coerce_to_template :: "string \<Rightarrow> string" where
  "coerce_to_template raw_text =
     (let lines0 = coerce_lines raw_text;
          lines = (if lines0 = [] then [''No explicit reasoning found.''] else lines0);
          bullets = take 5 lines;
          reasoning = join_nl (numbered 0 bullets)
      in ''# Reasoning:'' @ [LF] @ reasoning @ [LF, LF] @ ''# Answer:'' @ [LF] @ ''Insecure'')"

text \<open>The \<open>answer\<close> field that \<open>run_with_vllm_direct\<close> records for one raw model output.\<close>

definition run_with_vllm_direct_answer :: "string \<Rightarrow> string" where
  "run_with_vllm_direct_answer text =
     (let trimmed = validate_and_trim_strict text
      in if trimmed = [] then coerce_to_template text else trimmed)"

section \<open>JSON values and Python dictionaries\<close>

text \<open>
  What \<open>json.load\<close> returns. A number is modelled by its value, an object by its
  key-value pairs in insertion order (keys distinct). NaN and the infinities are not modelled.
\<close>

datatype json =
    JNull
  | JBool bool
  | JNum rat
  | JStr string
  | JArr "json list"
  | JObj "(string \<times> json) list"

datatype py_error = ValueError | TypeError | AttributeError | Raised string

text \<open>\<open>d.get(k, default)\<close>.\<close>

definition dict_get :: "(string \<times> json) list \<Rightarrow> string \<Rightarrow> json \<Rightarrow> json" where
  "dict_get d k dflt = (case map_of d k of None \<Rightarrow> dflt | Some v \<Rightarrow> v)"

text \<open>Truth value of a JSON value in a Python condition.\<close>

fun truthy :: "json \<Rightarrow> bool" where
  "truthy JNull = False"
| "truthy (JBool b) = b"
| "truthy (JNum r) = (r \<noteq> 0)"
| "truthy (JStr s) = (s \<noteq> [])"
| "truthy (JArr xs) = (xs \<noteq> [])"
| "truthy (JObj d) = (d \<noteq> [])"

text \<open>What a \<open>for\<close> loop over a JSON value visits; numbers, booleans and None are not iterable.\<close>

fun py_iter :: "json \<Rightarrow> py_error + json list" where
  "py_iter (JArr xs) = Inr xs"
| "py_iter (JStr s) = Inr (map (\<lambda>c. JStr [c]) s)"
| "py_iter (JObj d) = Inr (map (\<lambda>kv. JStr (fst kv)) d)"
| "py_iter _ = Inl TypeError"

text \<open>
  A JSON value as a key of a Python set or dictionary: lists and objects are unhashable,
  and \<open>True\<close> and \<open>False\<close> are the same keys as 1 and 0.
\<close>

datatype py_key = KNone | KNum rat | KStr string

fun hash_key :: "json \<Rightarrow> py_error + py_key" where
  "hash_key JNull = Inr KNone"
| "hash_key (JBool b) = Inr (KNum (if b then 1 else 0))"
| "hash_key (JNum r) = Inr (KNum r)"
| "hash_key (JStr s) = Inr (KStr s)"
| "hash_key (JArr xs) = Inl TypeError"
| "hash_key (JObj d) = Inl TypeError"

definition load_json_array :: "json \<Rightarrow> py_error + json list" where
  "load_json_array data = (case data of JArr xs \<Rightarrow> Inr xs | _ \<Rightarrow> Inl ValueError)"

section \<open>Verdict extraction (RQ2/cul\_full\_patched.py, RQ3/cul\_N\_patched.py)\<close>

text \<open>\<open>[ln.replace("\r", "") for ln in answer_text.split("\n")]\<close>.\<close>

definition answer_lines :: "string \<Rightarrow> string list" where
  "answer_lines answer_text = map (filter (\<lambda>c. c \<noteq> CR)) (split_nl answer_text)"

text \<open>The loop that overwrites \<open>last_idx\<close> at every line that is \<open># Answer:\<close> once trimmed.\<close>

fun last_answer_idx :: "string list \<Rightarrow> nat \<Rightarrow> int \<Rightarrow> int" where
  "last_answer_idx [] i last_idx = last_idx"
| "last_answer_idx (l # ls) i last_idx =
     last_answer_idx ls (i + 1) (if strip l = ''# Answer:'' then int i else last_idx)"

fun parse_final_answer :: "json \<Rightarrow> string" where
  "parse_final_answer (JStr answer_text) =
     (let lines = answer_lines answer_text;
          last_idx = last_answer_idx lines 0 (- 1)
      in if last_idx < 0 \<or> last_idx + 1 \<ge> int (length lines) then []
         else strip (lines ! nat (last_idx + 1)))"
| "parse_final_answer _ = []"

fun is_secure_answer :: "json \<Rightarrow> bool" where
  "is_secure_answer (JStr answer_text) =
     (let lines = answer_lines answer_text;
          last_idx = last_answer_idx lines 0 (- 1)
      in if last_idx < 0 \<or> last_idx + 1 \<ge> int (length lines) then False
         else strip (lines ! nat (last_idx + 1)) = ''Secure'')"
| "is_secure_answer _ = False"

section \<open>Ratio aggregation (RQ2/cul\_full\_patched.py)\<close>

text \<open>
  The three numbers a run reports. The source computes them as floats; the model computes
  with rationals, so the rounding of the float division and product is not modelled.
\<close>

record stats =
  num :: rat
  a :: rat
  pct :: rat



definition percent :: "nat \<Rightarrow> nat \<Rightarrow> rat" where
  "percent k n = (if n > 0 then of_nat k / of_nat n * 100 else 0)"


section \<open>Coverage aggregation (RQ3/cul\_N\_patched.py)\<close>

record cov_state =
  all_indices :: "py_key set"
  index_has_secure :: "(py_key \<times> bool) list"

text \<open>\<open>d.setdefault(k, v)\<close> on an insertion-ordered dictionary.\<close>

definition setdefault :: "'k \<Rightarrow> 'v \<Rightarrow> ('k \<times> 'v) list \<Rightarrow> ('k \<times> 'v) list" where
  "setdefault k v d = (case map_of d k of None \<Rightarrow> d @ [(k, v)] | Some w \<Rightarrow> d)"

text \<open>One element of an answer file. An unhashable index raises out of the whole run.\<close>

definition cov_element :: "json \<Rightarrow> cov_state \<Rightarrow> py_error + cov_state" where
  "cov_element obj st =
     (case obj of
        JObj d \<Rightarrow>
          (case map_of d ''index'' of
             None \<Rightarrow> Inr st
           | Some idx \<Rightarrow>
               (case hash_key idx of
                  Inl e \<Rightarrow> Inl e
                | Inr k \<Rightarrow>
                    Inr \<lparr>all_indices = insert k (all_indices st),
                         index_has_secure =
                           (if is_secure_answer (dict_get d ''answer'' (JStr []))
                            then AList.update k True (index_has_secure st)
                            else setdefault k False (index_has_secure st))\<rparr>))
      | _ \<Rightarrow> Inr st)"

fun cov_array :: "json list \<Rightarrow> cov_state \<Rightarrow> py_error + cov_state" where
  "cov_array [] st = Inr st"
| "cov_array (obj # rest) st =
     (case cov_element obj st of Inl e \<Rightarrow> Inl e | Inr st' \<Rightarrow> cov_array rest st')"

fun cov_files :: "(nat \<Rightarrow> json option) \<Rightarrow> nat list \<Rightarrow> cov_state \<Rightarrow> py_error + cov_state" where
  "cov_files files [] st = Inr st"
| "cov_files files (i # rest) st =
     (case files i of
        None \<Rightarrow> cov_files files rest st
      | Some data \<Rightarrow>
          (case load_json_array data of
             Inl e \<Rightarrow> cov_files files rest st
           | Inr arr \<Rightarrow>
               (case cov_array arr st of
                  Inl e \<Rightarrow> Inl e
                | Inr st' \<Rightarrow> cov_files files rest st')))"

definition cov_stats :: "cov_state \<Rightarrow> stats" where
  "cov_stats st =
     (let n = card (all_indices st);
          k = length (filter snd (index_has_secure st))
      in \<lparr>num = of_nat n, a = of_nat k, pct = percent k n\<rparr>)"

definition cov_init :: cov_state where
  "cov_init = \<lparr>all_indices = {}, index_has_secure = []\<rparr>"

definition process_model_dir_N :: "(nat \<Rightarrow> json option) \<Rightarrow> py_error + stats" where
  "process_model_dir_N files =
     (case cov_files files [1..<11] cov_init of
        Inl e \<Rightarrow> Inl e
      | Inr st \<Rightarrow> Inr (cov_stats st))"

section \<open>Vocabulary of the aggregation claims\<close>

text \<open>The records of a model directory: the arrays of the files that load, in file order.\<close>

definition file_records :: "(nat \<Rightarrow> json option) \<Rightarrow> nat \<Rightarrow> json list" where
  "file_records files i =
     (case files i of
        None \<Rightarrow> []
      | Some data \<Rightarrow> (case load_json_array data of Inl e \<Rightarrow> [] | Inr arr \<Rightarrow> arr))"

definition loaded_records :: "(nat \<Rightarrow> json option) \<Rightarrow> json list" where
  "loaded_records files = concat (map (file_records files) [1..<11])"



section \<open>Vocabulary of the verdict extraction claims\<close>

text \<open>A line that is \<open># Answer:\<close> once trimmed.\<close>

definition is_header :: "string \<Rightarrow> bool" where
  "is_header l = (strip l = ''# Answer:'')"





section \<open>Vocabulary of the coverage claims\<close>

text \<open>The key under which a record is merged: none for a record that is skipped or whose index is
  unhashable.\<close>

definition key_of :: "json \<Rightarrow> py_key option" where
  "key_of obj =
     (case obj of
        JObj d \<Rightarrow>
          (case map_of d ''index'' of
             None \<Rightarrow> None
           | Some idx \<Rightarrow> (case hash_key idx of Inl e \<Rightarrow> None | Inr k \<Rightarrow> Some k))
      | _ \<Rightarrow> None)"

text \<open>A record whose answer is judged \<open>Secure\<close>.\<close>

definition secure_record :: "json \<Rightarrow> bool" where
  "secure_record obj =
     (case obj of
        JObj d \<Rightarrow> is_secure_answer (dict_get d ''answer'' (JStr []))
      | _ \<Rightarrow> False)"

definition keys_of :: "json list \<Rightarrow> py_key list" where
  "keys_of recs = List.map_filter key_of recs"

text \<open>Some record with index \<open>k\<close> has a \<open>Secure\<close> answer.\<close>

definition covered :: "json list \<Rightarrow> py_key \<Rightarrow> bool" where
  "covered recs k = (\<exists>r \<in> set recs. key_of r = Some k \<and> secure_record r)"

text \<open>The state after a run over \<open>recs\<close> from \<open>st\<close>: the indices seen, and the OR of the verdicts of
  every index.\<close>

definition flags_ok :: "cov_state \<Rightarrow> json list \<Rightarrow> cov_state \<Rightarrow> bool" where
  "flags_ok st recs st' =
     (all_indices st' = all_indices st \<union> set (keys_of recs)
      \<and> (\<forall>k. map_of (index_has_secure st') k =
            (case map_of (index_has_secure st) k of
               Some b \<Rightarrow> Some (b \<or> covered recs k)
             | None \<Rightarrow> if k \<in> set (keys_of recs) then Some (covered recs k) else None))
      \<and> (distinct (map fst (index_has_secure st)) \<longrightarrow> distinct (map fst (index_has_secure st'))))"

text \<open>A record whose index is a list or an object: the run raises \<open>TypeError\<close> there.\<close>

definition unhashable_index :: "json \<Rightarrow> bool" where
  "unhashable_index obj =
     (case obj of
        JObj d \<Rightarrow>
          (case map_of d ''index'' of
             None \<Rightarrow> False
           | Some idx \<Rightarrow> (case hash_key idx of Inl e \<Rightarrow> True | Inr k \<Rightarrow> False))
      | _ \<Rightarrow> False)"

text \<open>The claim in its own words: the distinct indices, those with a \<open>Secure\<close> record, and their
  percentage.\<close>

definition coverage_report :: "json list \<Rightarrow> stats" where
  "coverage_report recs =
     (let ks = remdups (keys_of recs);
          cs = filter (covered recs) ks
      in \<lparr>num = of_nat (length ks), a = of_nat (length cs),
          pct = percent (length cs) (length ks)\<rparr>)"

text \<open>Two records, and two runs that merge the first of them once and twice.\<close>

definition secure_seven :: json where
  "secure_seven =
     JObj [(''index'', JNum 7),
           (''answer'', JStr ''# Reasoning:\<newline>1. x\<newline># Answer:\<newline>Secure'')]"

definition insecure_eight :: json where
  "insecure_eight =
     JObj [(''index'', JNum 8),
           (''answer'', JStr ''# Reasoning:\<newline>1. x\<newline># Answer:\<newline>Insecure'')]"

definition merged_once :: "nat \<Rightarrow> json option" where
  "merged_once i = (if i = 1 then Some (JArr [secure_seven, insecure_eight]) else None)"

definition merged_twice :: "nat \<Rightarrow> json option" where
  "merged_twice i =
     (if i = 1 then Some (JArr [secure_seven, insecure_eight, secure_seven]) else None)"

section \<open>Code block extraction (RQ3/N\_patch.py, RQ2/full\_patch.py)\<close>

definition BT :: char where
  "BT = CHR 0x60"

text \<open>Three backticks.\<close>

definition fence :: string where
  "fence = [BT, BT, BT]"

text \<open>The opening fence followed by \<open>c\<close>, matched under \<open>re.IGNORECASE\<close>.\<close>

definition is_fence_c :: "string \<Rightarrow> bool" where
  "is_fence_c s = (startswith s (fence @ ''c'') \<or> startswith s (fence @ ''C''))"

fun find_fence_c :: "string \<Rightarrow> nat option" where
  "find_fence_c [] = None"
| "find_fence_c (c # cs) =
     (if is_fence_c (c # cs) then Some 0 else map_option Suc (find_fence_c cs))"

text \<open>
  Where the lazy group of the pattern \<open>\s*(.*?)\s*\<close> followed by the closing fence ends: the
  least position from which the text is white space followed by the fence.
\<close>

fun find_close :: "string \<Rightarrow> nat option" where
  "find_close [] = None"
| "find_close (c # cs) =
     (if startswith (dropWhile isspace (c # cs)) fence then Some 0
      else map_option Suc (find_close cs))"

text \<open>
  \<open>re.search\<close> of the opening fence with \<open>c\<close>, white space, a lazy group, white space and
  the closing fence, under \<open>re.DOTALL | re.IGNORECASE\<close>. The search starts at the leftmost opening
  fence (when that one has no closing fence behind it, no later one has); the first \<open>\s*\<close>
  takes all the white space after it; the group ends at the least position from which white space
  and the closing fence follow.
\<close>

definition extract_code_block_from_model :: "string \<Rightarrow> string option" where
  "extract_code_block_from_model text =
     (if text = [] then None
      else
        (case find_fence_c text of
           None \<Rightarrow> None
         | Some i \<Rightarrow>
             let body = dropWhile isspace (drop (i + 4) text)
             in (case find_close body of
                   None \<Rightarrow> None
                 | Some q \<Rightarrow> Some (strip (take q body)))))"

text \<open>
  \<open>_parse_patch_response\<close>: \<open>re.search\<close> of the opening fence with \<open>c\<close>, a lazy group and the
  closing fence; the whole text, trimmed, when there is no match; the empty string for a response
  that is not a string.
\<close>

fun parse_patch_response :: "json \<Rightarrow> string" where
  "parse_patch_response (JStr response_text) =
     (case find_fence_c response_text of
        None \<Rightarrow> strip response_text
      | Some i \<Rightarrow>
          (case find_str (drop (i + 4) response_text) fence of
             None \<Rightarrow> strip response_text
           | Some q \<Rightarrow> strip (take q (drop (i + 4) response_text))))"
| "parse_patch_response _ = []"

section \<open>The batch dispatcher (RQ2/full\_patch.py)\<close>

definition insecure_marker :: string where
  "insecure_marker = ''# Answer:'' @ [LF] @ ''Insecure''"

text \<open>
  \<open>process_item\<close>. The parameter \<open>call\<close> is the outcome of the \<open>try\<close> block up to
  \<open>raw_content\<close> for the prompt built from \<open>origin_code\<close> and \<open>answer_text\<close>: the content of
  the reply, or the message of the exception raised by the retried request or by reading the
  reply.
\<close>

definition process_item :: "(string \<Rightarrow> string \<Rightarrow> string + json) \<Rightarrow> json \<Rightarrow> json option" where
  "process_item call item =
     (case item of
        JObj d \<Rightarrow>
          (case dict_get d ''answer'' (JStr []) of
             JStr answer_text \<Rightarrow>
               if \<not> contains answer_text insecure_marker then None
               else
                 (case dict_get d ''origin_code'' (JStr []) of
                    JStr origin_code \<Rightarrow>
                      if strip origin_code = [] then None
                      else
                        (case call origin_code answer_text of
                           Inr raw_content \<Rightarrow>
                             Some (JObj (AList.update ''patched_code''
                                           (JStr (parse_patch_response raw_content)) d))
                         | Inl msg \<Rightarrow>
                             Some (JObj (AList.update ''patched_code''
                                           (JStr (''// PATCHING FAILED: '' @ msg)) d)))
                  | _ \<Rightarrow> None)
           | _ \<Rightarrow> None)
      | _ \<Rightarrow> None)"

text \<open>
  \<open>asyncio.gather\<close>: every task that finishes stores its value in the slot of its own position,
  in the order \<open>order\<close> in which the tasks finish; the awaited list is the slots, once all are
  filled. \<open>None\<close>: some task never finishes.
\<close>

definition gather :: "nat list \<Rightarrow> 'a list \<Rightarrow> 'a list option" where
  "gather order tasks =
     (let slots = fold (\<lambda>i slots. if i < length tasks then slots[i := Some (tasks ! i)] else slots)
                    order (replicate (length tasks) None)
      in if list_all (\<lambda>s. s \<noteq> None) slots then Some (map the slots) else None)"

text \<open>The results that \<open>[result for result in patched_results if result]\<close> keeps.\<close>

definition kept :: "json option \<Rightarrow> bool" where
  "kept result = (case result of None \<Rightarrow> False | Some obj \<Rightarrow> truthy obj)"

text \<open>
  \<open>patch_code_from_file\<close> on the loaded list \<open>data\<close>: the list it writes. \<open>call i\<close> is the
  outcome of the request of the task at position \<open>i\<close>.
\<close>

definition patch_code_from_file ::
  "nat list \<Rightarrow> (nat \<Rightarrow> string \<Rightarrow> string \<Rightarrow> string + json) \<Rightarrow> json list \<Rightarrow> json list option" where
  "patch_code_from_file order call data =
     (let tasks = map (\<lambda>(i, item). process_item (call i) item) (enumerate 0 data)
      in (case gather order tasks of
            None \<Rightarrow> None
          | Some patched_results \<Rightarrow> Some (map the (filter kept patched_results))))"

section \<open>The variant state machine (RQ3/N\_patch.py)\<close>

text \<open>
  The remote model and the JSON parser: \<open>vuln_completion\<close> and \<open>patch_completion\<close> are
  \<open>create_completion\<close> on the two prompts (for an analysis; for a code, an analysis and a
  descriptor to retain), \<open>json_loads\<close> is \<open>json.loads\<close>; each returns or raises.
\<close>

record backend =
  vuln_completion :: "string \<Rightarrow> py_error + string"
  patch_completion :: "string \<Rightarrow> string \<Rightarrow> json \<Rightarrow> py_error + string"
  json_loads :: "string \<Rightarrow> py_error + json"

definition analyze_vulnerabilities :: "backend \<Rightarrow> string \<Rightarrow> py_error + json" where
  "analyze_vulnerabilities be analysis_text =
     (case vuln_completion be analysis_text of
        Inl e \<Rightarrow> Inl e
      | Inr raw \<Rightarrow> if raw \<noteq> [] then json_loads be raw else Inr (JArr []))"

definition generate_variant ::
  "backend \<Rightarrow> string \<Rightarrow> string \<Rightarrow> json \<Rightarrow> py_error + string option" where
  "generate_variant be code analysis_text retained_vuln =
     (case patch_completion be code analysis_text retained_vuln of
        Inl e \<Rightarrow> Inl e
      | Inr raw \<Rightarrow> Inr (extract_code_block_from_model raw))"

text \<open>The record appended for one variant: a copy of the item with \<open>index\<close> and \<open>patched_code\<close> set.\<close>

definition variant_record :: "(string \<times> json) list \<Rightarrow> nat \<Rightarrow> string \<Rightarrow> json" where
  "variant_record item idx variant_code =
     JObj (AList.update ''patched_code'' (JStr variant_code)
             (AList.update ''index'' (JNum (of_nat idx)) item))"

text \<open>
  The loop over the descriptors. An exception of \<open>generate_variant\<close> leaves the loop for the
  handler of the entry, which keeps what was appended before.
\<close>

fun variant_loop ::
  "backend \<Rightarrow> (string \<times> json) list \<Rightarrow> nat \<Rightarrow> string \<Rightarrow> string \<Rightarrow> json list \<Rightarrow> json list
   \<Rightarrow> json list" where
  "variant_loop be item idx origin_code answer_text [] results = results"
| "variant_loop be item idx origin_code answer_text (v_desc # rest) results =
     (case generate_variant be origin_code answer_text v_desc of
        Inl e \<Rightarrow> results
      | Inr variant_code \<Rightarrow>
          (case variant_code of
             None \<Rightarrow> variant_loop be item idx origin_code answer_text rest results
           | Some code \<Rightarrow>
               if code \<noteq> []
               then variant_loop be item idx origin_code answer_text rest
                      (results @ [variant_record item idx code])
               else variant_loop be item idx origin_code answer_text rest results))"

text \<open>
  One pass of the loop over the entries. An entry that is not an object has no \<open>get\<close>: the
  \<open>AttributeError\<close> is caught and the entry skipped, as is an entry whose descriptors cannot be
  read or iterated.
\<close>

definition process_entry :: "backend \<Rightarrow> nat \<Rightarrow> json \<Rightarrow> json list \<Rightarrow> json list" where
  "process_entry be idx entry results =
     (case entry of
        JObj item \<Rightarrow>
          (case dict_get item ''answer'' (JStr []) of
             JStr answer_text \<Rightarrow>
               if \<not> contains answer_text insecure_marker then results
               else
                 (case dict_get item ''origin_code'' (JStr []) of
                    JStr origin_code \<Rightarrow>
                      if strip origin_code = [] then results
                      else
                        (case analyze_vulnerabilities be answer_text of
                           Inl e \<Rightarrow> results
                         | Inr vulns \<Rightarrow>
                             if \<not> truthy vulns then results
                             else
                               (case py_iter vulns of
                                  Inl e \<Rightarrow> results
                                | Inr descs \<Rightarrow>
                                    variant_loop be item idx origin_code answer_text
                                      descs results))
                  | _ \<Rightarrow> results)
           | _ \<Rightarrow> results)
      | _ \<Rightarrow> results)"

fun process_entries_from :: "backend \<Rightarrow> nat \<Rightarrow> json list \<Rightarrow> json list \<Rightarrow> json list" where
  "process_entries_from be idx [] results = results"
| "process_entries_from be idx (entry # rest) results =
     process_entries_from be (idx + 1) rest (process_entry be idx entry results)"

definition process_entries :: "backend \<Rightarrow> json list \<Rightarrow> json list" where
  "process_entries be entries = process_entries_from be 0 entries []"

section \<open>Index injection (RQ3/del\_N\_patched.py)\<close>

text \<open>
  The body of the loop of \<open>inject_index_for_pair\<close> at one position: the answer object after
  it. A pair with a non-object raises \<open>ValueError\<close>, which is caught, and a code object with no
  index is skipped: both leave the answer object as it is.
\<close>

definition inject_index :: "json \<Rightarrow> json \<Rightarrow> json" where
  "inject_index code_obj ans_obj =
     (case code_obj of
        JObj cd \<Rightarrow>
          (case ans_obj of
             JObj ad \<Rightarrow>
               (case map_of cd ''index'' of
                  None \<Rightarrow> ans_obj
                | Some v \<Rightarrow> JObj (AList.update ''index'' v ad))
           | _ \<Rightarrow> ans_obj)
      | _ \<Rightarrow> ans_obj)"

text \<open>
  \<open>inject_index_for_pair\<close> on the two loaded arrays: the answer array it saves. The loop runs
  over the positions that both arrays have.
\<close>

fun inject_index_for_pair :: "json list \<Rightarrow> json list \<Rightarrow> json list" where
  "inject_index_for_pair [] ans_arr = ans_arr"
| "inject_index_for_pair (code_obj # code_arr) [] = []"
| "inject_index_for_pair (code_obj # code_arr) (ans_obj # ans_arr) =
     inject_index code_obj ans_obj # inject_index_for_pair code_arr ans_arr"

section \<open>Vocabulary of the variant claims\<close>

text \<open>
  The two gates of an entry: it is an object, its answer is a string that contains the marker,
  and its \<open>origin_code\<close> is a string that is not blank. The item, the answer and the code.
\<close>

definition entry_gate :: "json \<Rightarrow> ((string \<times> json) list \<times> string \<times> string) option" where
  "entry_gate entry =
     (case entry of
        JObj item \<Rightarrow>
          (case dict_get item ''answer'' (JStr []) of
             JStr answer_text \<Rightarrow>
               (case dict_get item ''origin_code'' (JStr []) of
                  JStr origin_code \<Rightarrow>
                    if contains answer_text insecure_marker \<and> strip origin_code \<noteq> []
                    then Some (item, answer_text, origin_code) else None
                | _ \<Rightarrow> None)
           | _ \<Rightarrow> None)
      | _ \<Rightarrow> None)"

text \<open>The descriptors extracted for an answer: none when the extraction raises or yields nothing to iterate.\<close>

definition descriptors :: "backend \<Rightarrow> string \<Rightarrow> json list" where
  "descriptors be answer_text =
     (case analyze_vulnerabilities be answer_text of
        Inl e \<Rightarrow> []
      | Inr vulns \<Rightarrow> (case py_iter vulns of Inl e \<Rightarrow> [] | Inr descs \<Rightarrow> descs))"

text \<open>The patch request for a descriptor raises.\<close>

definition call_fails :: "backend \<Rightarrow> string \<Rightarrow> string \<Rightarrow> json \<Rightarrow> bool" where
  "call_fails be origin_code answer_text v_desc =
     (case generate_variant be origin_code answer_text v_desc of Inl e \<Rightarrow> True | Inr c \<Rightarrow> False)"

text \<open>The code of a patch response that has a fenced block with a non-empty body.\<close>

definition usable_code :: "backend \<Rightarrow> string \<Rightarrow> string \<Rightarrow> json \<Rightarrow> string option" where
  "usable_code be origin_code answer_text v_desc =
     (case generate_variant be origin_code answer_text v_desc of
        Inl e \<Rightarrow> None
      | Inr None \<Rightarrow> None
      | Inr (Some code) \<Rightarrow> if code \<noteq> [] then Some code else None)"

text \<open>
  The variants of one entry, in the claim's words: for an entry that passes the gates, one
  record per descriptor whose patch response has usable code, over the descriptors up to the
  first whose request raises.
\<close>

definition entry_variants :: "backend \<Rightarrow> nat \<Rightarrow> json \<Rightarrow> json list" where
  "entry_variants be idx entry =
     (case entry_gate entry of
        None \<Rightarrow> []
      | Some (item, answer_text, origin_code) \<Rightarrow>
          map (variant_record item idx)
            (List.map_filter (usable_code be origin_code answer_text)
               (takeWhile (\<lambda>v. \<not> call_fails be origin_code answer_text v)
                  (descriptors be answer_text))))"

text \<open>The fields of a record.\<close>

definition fields :: "json \<Rightarrow> string \<Rightarrow> json option" where
  "fields obj = (case obj of JObj d \<Rightarrow> map_of d | _ \<Rightarrow> Map.empty)"

text \<open>
  A backend that extracts one descriptor from every analysis and answers every patch request
  with one fenced block.
\<close>

definition stub :: backend where
  "stub =
     \<lparr>vuln_completion = (\<lambda>t. Inr ''[\"unchecked strcpy\"]''),
      patch_completion = (\<lambda>c t v. Inr (fence @ ''c'' @ [LF] @ ''int x;'' @ [LF] @ fence)),
      json_loads = (\<lambda>raw. Inr (JArr [JStr ''unchecked strcpy'']))\<rparr>"

definition insecure_text :: string where
  "insecure_text = ''# Reasoning:\<newline>1. strcpy is unbounded.\<newline># Answer:\<newline>Insecure''"

text \<open>An entry that carries the index 7, and an entry whose code is one blank.\<close>

definition indexed_item :: "(string \<times> json) list" where
  "indexed_item =
     [(''index'', JNum 7), (''answer'', JStr insecure_text),
      (''origin_code'', JStr ''void f(){ strcpy(a,b); }'')]"

definition blank_code_item :: "(string \<times> json) list" where
  "blank_code_item = [(''answer'', JStr insecure_text), (''origin_code'', JStr '' '')]"

text \<open>A code file of two records and the answer file paired with it.\<close>

definition code_file :: "json list" where
  "code_file = [JObj [(''index'', JNum 3), (''patched_code'', JStr ''int x;'')], JObj []]"

definition answer_file :: "json list" where
  "answer_file =
     [JObj [(''answer'', JStr insecure_text), (''index'', JNum 9)],
      JObj [(''answer'', JStr insecure_text), (''index'', JNum 4)],
      JObj [(''answer'', JStr insecure_text)]]"

section \<open>Vocabulary of the dispatcher claim\<close>

text \<open>The record a task returns for an item that passes the gates.\<close>

definition patched_item ::
  "(string \<Rightarrow> string \<Rightarrow> string + json) \<Rightarrow> (string \<times> json) list \<Rightarrow> string \<Rightarrow> string \<Rightarrow> json" where
  "patched_item call d answer_text origin_code =
     JObj (AList.update ''patched_code''
             (JStr (case call origin_code answer_text of
                      Inr raw_content \<Rightarrow> parse_patch_response raw_content
                    | Inl msg \<Rightarrow> ''// PATCHING FAILED: '' @ msg)) d)"

text \<open>
  The output in the claim's words, as amended: the records of the items that pass the gates, in
  input order.
\<close>

definition dispatched :: "(nat \<Rightarrow> string \<Rightarrow> string \<Rightarrow> string + json) \<Rightarrow> json list \<Rightarrow> json list" where
  "dispatched call data =
     List.map_filter
       (\<lambda>(i, item). case entry_gate item of
                       None \<Rightarrow> None
                     | Some (d, t, oc) \<Rightarrow> Some (patched_item (call i) d t oc))
       (enumerate 0 data)"

text \<open>An item whose answer is \<open>Secure\<close>, and a reply for every request.\<close>

definition secure_item :: json where
  "secure_item =
     JObj [(''answer'', JStr ''# Reasoning:\<newline>1. ok\<newline># Answer:\<newline>Secure''),
           (''origin_code'', JStr ''int f(void){return 0;}'')]"

definition insecure_item :: json where
  "insecure_item =
     JObj [(''answer'', JStr ''# Reasoning:\<newline>1. bad\<newline># Answer:\<newline>Insecure''),
           (''origin_code'', JStr ''void f(){ strcpy(a,b); }'')]"

definition reply :: "nat \<Rightarrow> string \<Rightarrow> string \<Rightarrow> string + json" where
  "reply i origin_code answer_text = Inr (JStr (fence @ ''c'' @ [LF] @ ''int x;'' @ [LF] @ fence))"

text \<open>Three items, the second of them secure.\<close>

definition three_items :: "json list" where
  "three_items = [insecure_item, secure_item, insecure_item]"

section \<open>Vocabulary of the strict validator claims\<close>

text \<open>A reasoning block, and a text with trailing content after its verdict line.\<close>

definition reasoning_block :: string where
  "reasoning_block = ''# Reasoning:\<newline>1. x''"

definition trailing_text :: string where
  "trailing_text = reasoning_block @ LF # ''# Answer:'' @ LF # ''Insecure'' @ LF # ''extra''"

section \<open>Vocabulary of the coercion claims\<close>

text \<open>
  The bullets of the coerced document: the first five lines of the input that are not blank,
  trimmed, or the placeholder when there is none.
\<close>

definition bullets_of :: "string \<Rightarrow> string list" where
  "bullets_of raw_text =
     (if coerce_lines raw_text = [] then [''No explicit reasoning found.'']
      else take 5 (coerce_lines raw_text))"

section \<open>Ratio aggregation: the reported numbers\<close>





section \<open>Verdict extraction: the last block decides\<close>

lemma last_answer_idx_snoc:
  "last_answer_idx (ls @ [l]) i last_idx =
     (if is_header l then int (i + length ls) else last_answer_idx ls i last_idx)"
  by (induction ls arbitrary: i last_idx) (auto simp: is_header_def)





lemma split_nl_nonempty: "split_nl s \<noteq> []"
  by (induction s) (auto simp: neq_Nil_conv)

lemma push_append: "ls \<noteq> [] \<Longrightarrow> push c (ls @ ms) = push c ls @ ms"
  by (cases ls) auto

lemma split_nl_append:
  "split_nl (xs @ LF # ys) = split_nl xs @ split_nl ys"
  by (induction xs) (auto simp: push_append split_nl_nonempty)

lemma split_nl_single: "LF \<notin> set v \<Longrightarrow> split_nl v = [v]"
  by (induction v) auto

lemma is_header_header: "is_header ''# Answer:''"
  by (simp add: is_header_def strip_def rstrip_def lstrip_def isspace_def)





section \<open>Coverage aggregation: the OR-merge\<close>

lemma cov_element_cases:
  "cov_element r st =
     (case r of
        JObj d \<Rightarrow>
          (case map_of d ''index'' of
             None \<Rightarrow> Inr st
           | Some idx \<Rightarrow>
               (case hash_key idx of
                  Inl e \<Rightarrow> Inl e
                | Inr k \<Rightarrow>
                    Inr \<lparr>all_indices = insert k (all_indices st),
                         index_has_secure =
                           (if secure_record r
                            then AList.update k True (index_has_secure st)
                            else setdefault k False (index_has_secure st))\<rparr>))
      | _ \<Rightarrow> Inr st)"
  by (cases r) (auto simp: cov_element_def secure_record_def split: option.splits sum.splits)

lemma cov_element_skip:
  "cov_element r st = Inr st' \<Longrightarrow> key_of r = None \<Longrightarrow> st' = st"
  by (auto simp: cov_element_cases key_of_def split: json.splits option.splits sum.splits)

lemma cov_element_key:
  "cov_element r st = Inr st' \<Longrightarrow> key_of r = Some k \<Longrightarrow>
   st' = \<lparr>all_indices = insert k (all_indices st),
         index_has_secure =
           (if secure_record r then AList.update k True (index_has_secure st)
            else setdefault k False (index_has_secure st))\<rparr>"
  by (auto simp: cov_element_cases key_of_def split: json.splits option.splits sum.splits)

lemma map_of_setdefault:
  "map_of (setdefault k v d) = (case map_of d k of None \<Rightarrow> (map_of d)(k \<mapsto> v) | Some w \<Rightarrow> map_of d)"
  by (auto simp: setdefault_def map_add_def fun_eq_iff split: option.splits)

lemma distinct_setdefault:
  "distinct (map fst d) \<Longrightarrow> distinct (map fst (setdefault k v d))"
  by (auto simp: setdefault_def map_of_eq_None_iff split: option.splits)

lemma flags_ok_Nil: "flags_ok st [] st"
  by (simp add: flags_ok_def keys_of_def covered_def map_filter_simps split: option.splits)

lemma flags_ok_step:
  assumes e: "cov_element r st = Inr st1" and f: "flags_ok st1 recs st'"
  shows "flags_ok st (r # recs) st'"
proof (cases "key_of r")
  case None
  with e have "st1 = st" by (rule cov_element_skip)
  moreover from None have "keys_of (r # recs) = keys_of recs"
    by (simp add: keys_of_def map_filter_simps)
  moreover from None have "covered (r # recs) k = covered recs k" for k
    by (simp add: covered_def)
  ultimately show ?thesis using f by (simp add: flags_ok_def split: option.splits)
next
  case (Some k)
  from cov_element_key [OF e Some]
  have s1: "all_indices st1 = insert k (all_indices st)"
    and d1: "index_has_secure st1 =
      (if secure_record r then AList.update k True (index_has_secure st)
       else setdefault k False (index_has_secure st))"
    by simp_all
  from Some have ks: "keys_of (r # recs) = k # keys_of recs"
    by (simp add: keys_of_def map_filter_simps)
  from Some have cv: "covered (r # recs) k' = ((k' = k \<and> secure_record r) \<or> covered recs k')" for k'
    by (auto simp: covered_def)
  have m1: "map_of (index_has_secure st1) k' =
      (if k' = k then (case map_of (index_has_secure st) k of
                         None \<Rightarrow> Some (secure_record r)
                       | Some b \<Rightarrow> Some (b \<or> secure_record r))
       else map_of (index_has_secure st) k')" for k'
    by (auto simp: d1 update_conv' map_of_setdefault split: option.splits)
  have dd: "distinct (map fst (index_has_secure st)) \<Longrightarrow> distinct (map fst (index_has_secure st1))"
    by (simp add: d1 distinct_setdefault distinct_update)
  from f have a1: "all_indices st' = all_indices st1 \<union> set (keys_of recs)"
    and a2: "\<And>k'. map_of (index_has_secure st') k' =
            (case map_of (index_has_secure st1) k' of
               Some b \<Rightarrow> Some (b \<or> covered recs k')
             | None \<Rightarrow> if k' \<in> set (keys_of recs) then Some (covered recs k') else None)"
    and a3: "distinct (map fst (index_has_secure st1)) \<longrightarrow> distinct (map fst (index_has_secure st'))"
    by (simp_all add: flags_ok_def)
  have "all_indices st' = all_indices st \<union> set (keys_of (r # recs))"
    by (simp add: a1 s1 ks)
  moreover have "map_of (index_has_secure st') k' =
            (case map_of (index_has_secure st) k' of
               Some b \<Rightarrow> Some (b \<or> covered (r # recs) k')
             | None \<Rightarrow> if k' \<in> set (keys_of (r # recs)) then Some (covered (r # recs) k') else None)" for k'
    by (auto simp: a2 m1 ks cv split: option.splits)
  moreover have "distinct (map fst (index_has_secure st)) \<longrightarrow> distinct (map fst (index_has_secure st'))"
    using a3 dd by blast
  ultimately show ?thesis
    unfolding flags_ok_def by blast
qed

lemma cov_array_flags:
  "cov_array recs st = Inr st' \<Longrightarrow> flags_ok st recs st'"
proof (induction recs arbitrary: st)
  case Nil
  then show ?case by (simp add: flags_ok_Nil)
next
  case (Cons r recs)
  from Cons.prems obtain st1 where e: "cov_element r st = Inr st1"
    and c: "cov_array recs st1 = Inr st'"
    by (auto split: sum.splits)
  from Cons.IH [OF c] e show ?case by (rule flags_ok_step [rotated])
qed

lemma cov_element_total:
  "\<not> unhashable_index r \<Longrightarrow> \<exists>st'. cov_element r st = Inr st'"
  by (cases r)
     (auto simp: cov_element_def unhashable_index_def split: option.splits sum.splits)

lemma cov_array_total:
  "list_all (\<lambda>r. \<not> unhashable_index r) recs \<Longrightarrow> \<exists>st'. cov_array recs st = Inr st'"
proof (induction recs arbitrary: st)
  case Nil
  show ?case by simp
next
  case (Cons r recs)
  from Cons.prems obtain st1 where "cov_element r st = Inr st1"
    using cov_element_total [of r st] by auto
  moreover from Cons.prems Cons.IH [of st1] obtain st' where "cov_array recs st1 = Inr st'"
    by auto
  ultimately show ?case by simp
qed

lemma cov_array_append:
  "cov_array (xs @ ys) st =
     (case cov_array xs st of Inl e \<Rightarrow> Inl e | Inr st' \<Rightarrow> cov_array ys st')"
  by (induction xs arbitrary: st) (auto split: sum.splits)

lemma cov_files_records:
  "cov_files files ks st = cov_array (concat (map (file_records files) ks)) st"
  by (induction ks arbitrary: st)
     (auto simp: file_records_def cov_array_append split: option.splits sum.splits)

lemma count_true:
  "distinct (map fst d) \<Longrightarrow> length (filter snd d) = card {k. map_of d k = Some True}"
proof (induction d)
  case Nil
  show ?case by simp
next
  case (Cons p d)
  obtain k b where p: "p = (k, b)" by (cases p)
  let ?S = "{k'. map_of d k' = Some True}"
  have fin: "finite ?S"
    by (rule finite_subset [of _ "fst ` set d"]) (auto dest: map_of_SomeD intro: rev_image_eqI)
  from Cons.prems p have nk: "map_of d k = None"
    by (simp add: map_of_eq_None_iff)
  then have notin: "k \<notin> ?S" by simp
  have "{k'. map_of (p # d) k' = Some True} = (if b then insert k ?S else ?S)"
    using nk by (auto simp: p)
  then have "card {k'. map_of (p # d) k' = Some True} = (if b then Suc (card ?S) else card ?S)"
    using fin notin by simp
  moreover from Cons have "length (filter snd d) = card ?S" by simp
  ultimately show ?case by (simp add: p)
qed

lemma upd_fixed:
  "((if s then AList.update k True d else setdefault k False d) = d)
   = (if s then map_of d k = Some True else map_of d k \<noteq> None)"
proof (cases s)
  case True
  have "AList.update k True d = d \<Longrightarrow> map_of d k = Some True"
    by (metis update_conv' fun_upd_same)
  with True show ?thesis by (auto simp: update_triv)
next
  case False
  then show ?thesis by (auto simp: setdefault_def split: option.splits)
qed

lemma map_of_upd_mono:
  "map_of d k = Some True \<Longrightarrow>
   map_of (if s then AList.update k' True d else setdefault k' False d) k = Some True"
  "map_of d k \<noteq> None \<Longrightarrow>
   map_of (if s then AList.update k' True d else setdefault k' False d) k \<noteq> None"
  by (auto simp: update_conv' map_of_setdefault split: option.splits)

lemma absorbed_iff:
  "key_of r = Some k \<Longrightarrow>
   (cov_element r st = Inr st) =
     (k \<in> all_indices st
      \<and> (if secure_record r then map_of (index_has_secure st) k = Some True
         else map_of (index_has_secure st) k \<noteq> None))"
proof -
  assume kr: "key_of r = Some k"
  then have e: "cov_element r st = Inr \<lparr>all_indices = insert k (all_indices st),
         index_has_secure =
           (if secure_record r then AList.update k True (index_has_secure st)
            else setdefault k False (index_has_secure st))\<rparr>"
    by (auto simp: cov_element_cases key_of_def split: json.splits option.splits sum.splits)
  have "(\<lparr>all_indices = insert k (all_indices st),
         index_has_secure =
           (if secure_record r then AList.update k True (index_has_secure st)
            else setdefault k False (index_has_secure st))\<rparr> = st)
      = (insert k (all_indices st) = all_indices st
         \<and> (if secure_record r then AList.update k True (index_has_secure st)
            else setdefault k False (index_has_secure st)) = index_has_secure st)"
    by (cases st) auto
  then show ?thesis
    unfolding e upd_fixed by auto
qed

lemma absorbed_skip:
  "key_of r = None \<Longrightarrow> cov_element r st = Inr st0 \<Longrightarrow> cov_element r st1 = Inr st1"
  by (auto simp: cov_element_cases key_of_def split: json.splits option.splits sum.splits)

lemma absorbed_first:
  assumes "cov_element r st = Inr st1"
  shows "cov_element r st1 = Inr st1"
proof (cases "key_of r")
  case None
  with assms show ?thesis by (auto intro: absorbed_skip)
next
  case (Some k)
  from cov_element_key [OF assms Some] show ?thesis
    unfolding absorbed_iff [OF Some]
    by (auto simp: update_conv' map_of_setdefault split: option.splits)
qed

lemma absorbed_step:
  assumes r: "cov_element r st = Inr st" and q: "cov_element q st = Inr st1"
  shows "cov_element r st1 = Inr st1"
proof (cases "key_of r")
  case None
  with r show ?thesis by (auto intro: absorbed_skip)
next
  case (Some k)
  note ab = r [unfolded absorbed_iff [OF Some]]
  show ?thesis
  proof (cases "key_of q")
    case None
    with q have "st1 = st" by (rule cov_element_skip)
    with r show ?thesis by simp
  next
    case (Some k')
    from cov_element_key [OF q Some] ab show ?thesis
      unfolding absorbed_iff [OF \<open>key_of r = Some k\<close>]
      by (auto simp: map_of_upd_mono)
  qed
qed

lemma absorbed_array:
  "cov_element r st = Inr st \<Longrightarrow> cov_array ys st = Inr st1 \<Longrightarrow> cov_element r st1 = Inr st1"
proof (induction ys arbitrary: st)
  case Nil
  then show ?case by simp
next
  case (Cons q ys)
  from Cons.prems(2) obtain st2 where q: "cov_element q st = Inr st2"
    and c: "cov_array ys st2 = Inr st1"
    by (auto split: sum.splits)
  from absorbed_step [OF Cons.prems(1) q] c show ?case by (rule Cons.IH)
qed

lemma cov_array_duplicate:
  "cov_array (xs @ r # ys @ r # zs) st = cov_array (xs @ r # ys @ zs) st"
proof -
  have "cov_array (r # ys @ r # zs) s = cov_array (r # ys @ zs) s" for s
  proof (cases "cov_element r s")
    case (Inl e)
    then show ?thesis by simp
  next
    case (Inr s1)
    show ?thesis
    proof (cases "cov_array ys s1")
      case (Inl e)
      with Inr show ?thesis by (simp add: cov_array_append)
    next
      case (Inr s2)
      from absorbed_first [OF \<open>cov_element r s = Inr s1\<close>] Inr
      have "cov_element r s2 = Inr s2" by (rule absorbed_array)
      with Inr \<open>cov_element r s = Inr s1\<close> show ?thesis
        by (simp add: cov_array_append)
    qed
  qed
  then show ?thesis
    by (simp add: cov_array_append split: sum.splits)
qed

lemma cov_stats_report:
  assumes "cov_array recs cov_init = Inr st"
  shows "cov_stats st = coverage_report recs"
    and "map_of (index_has_secure st) k
      = (if k \<in> set (keys_of recs) then Some (covered recs k) else None)"
proof -
  from cov_array_flags [OF assms]
  have ai: "all_indices st = set (keys_of recs)"
    and fl: "\<And>k. map_of (index_has_secure st) k
      = (if k \<in> set (keys_of recs) then Some (covered recs k) else None)"
    and di: "distinct (map fst (index_has_secure st))"
    by (simp_all add: flags_ok_def cov_init_def)
  show "map_of (index_has_secure st) k
      = (if k \<in> set (keys_of recs) then Some (covered recs k) else None)"
    by (rule fl)
  have "{k. map_of (index_has_secure st) k = Some True}
      = set (filter (covered recs) (remdups (keys_of recs)))"
    by (auto simp: fl)
  moreover have "card (set (filter (covered recs) (remdups (keys_of recs))))
      = length (filter (covered recs) (remdups (keys_of recs)))"
    by (rule distinct_card) simp
  ultimately have "length (filter snd (index_has_secure st))
      = length (filter (covered recs) (remdups (keys_of recs)))"
    by (simp only: count_true [OF di])
  moreover have "card (all_indices st) = length (remdups (keys_of recs))"
    by (simp add: ai card_set)
  ultimately show "cov_stats st = coverage_report recs"
    by (simp add: cov_stats_def coverage_report_def Let_def)
qed

text \<open>
  C6. When no index is unhashable the run returns, the flag of every index seen is the OR of
  the \<open>Secure\<close> verdicts of the records with that index (an index never seen has no flag),
  and the statistics are those of the distinct indices and of the covered ones. Merging a
  record a second time, anywhere later in the run, changes neither the flags nor the
  statistics nor whether the run raises.
\<close>

theorem coverage_or_merge:
  "(list_all (\<lambda>r. \<not> unhashable_index r) (loaded_records files) \<longrightarrow>
      (\<exists>st. cov_files files [1..<11] cov_init = Inr st
          \<and> (\<forall>k. map_of (index_has_secure st) k
                = (if k \<in> set (keys_of (loaded_records files))
                   then Some (covered (loaded_records files) k) else None)))
      \<and> process_model_dir_N files = Inr (coverage_report (loaded_records files)))
   \<and> cov_files files [1..<11] st0 = cov_array (loaded_records files) st0
   \<and> cov_array (xs @ r # ys @ r # zs) st0 = cov_array (xs @ r # ys @ zs) st0"
proof -
  have f: "cov_files files [1..<11] s = cov_array (loaded_records files) s" for s
    unfolding loaded_records_def by (rule cov_files_records)
  have "\<exists>st. cov_files files [1..<11] cov_init = Inr st
          \<and> (\<forall>k. map_of (index_has_secure st) k
                = (if k \<in> set (keys_of (loaded_records files))
                   then Some (covered (loaded_records files) k) else None))
          \<and> process_model_dir_N files = Inr (coverage_report (loaded_records files))"
    if "list_all (\<lambda>r. \<not> unhashable_index r) (loaded_records files)"
  proof -
    from cov_array_total [OF that, of cov_init]
    obtain st where st: "cov_array (loaded_records files) cov_init = Inr st" by blast
    from cov_stats_report [OF st] st show ?thesis
      unfolding process_model_dir_N_def f by auto
  qed
  with f cov_array_duplicate show ?thesis by blast
qed

theorem coverage_or_merge_witness:
  "process_model_dir_N merged_once = Inr \<lparr>num = 2, a = 1, pct = 50\<rparr>
   \<and> process_model_dir_N merged_twice = Inr \<lparr>num = 2, a = 1, pct = 50\<rparr>"
proof -
  have h1: "list_all (\<lambda>r. \<not> unhashable_index r) (loaded_records merged_once)"
    by code_simp
  have h2: "list_all (\<lambda>r. \<not> unhashable_index r) (loaded_records merged_twice)"
    by code_simp
  have r1: "coverage_report (loaded_records merged_once) = \<lparr>num = 2, a = 1, pct = 50\<rparr>"
    by code_simp
  have r2: "coverage_report (loaded_records merged_twice) = \<lparr>num = 2, a = 1, pct = 50\<rparr>"
    by code_simp
  have "process_model_dir_N merged_once = Inr (coverage_report (loaded_records merged_once))"
    using coverage_or_merge [of merged_once] h1 by blast
  moreover
  have "process_model_dir_N merged_twice = Inr (coverage_report (loaded_records merged_twice))"
    using coverage_or_merge [of merged_twice] h2 by blast
  ultimately show ?thesis
    unfolding r1 r2 by blast
qed

section \<open>Variant generation: entry by entry\<close>

lemma variant_loop_eq:
  "variant_loop be item idx oc t ds results =
     results @ map (variant_record item idx)
       (List.map_filter (usable_code be oc t) (takeWhile (\<lambda>v. \<not> call_fails be oc t v) ds))"
  by (induction ds arbitrary: results)
     (auto simp: usable_code_def call_fails_def map_filter_simps split: sum.splits option.splits)

lemma py_iter_falsy: "\<not> truthy vulns \<Longrightarrow> py_iter vulns = Inr ds \<Longrightarrow> ds = []"
  by (cases vulns) auto

lemma process_entry_eq:
  "process_entry be idx entry results = results @ entry_variants be idx entry"
proof (cases "entry_gate entry")
  case None
  then show ?thesis
    by (auto simp: process_entry_def entry_variants_def entry_gate_def
        split: json.splits if_splits)
next
  case (Some g)
  obtain item t oc where g: "g = (item, t, oc)" by (cases g)
  from Some g have e: "entry = JObj item" "dict_get item ''answer'' (JStr []) = JStr t"
    "dict_get item ''origin_code'' (JStr []) = JStr oc" "contains t insecure_marker"
    "strip oc \<noteq> []"
    by (auto simp: entry_gate_def split: json.splits if_splits)
  from Some g e(1) have gate: "entry_gate (JObj item) = Some (item, t, oc)"
    by simp
  have ev: "entry_variants be idx (JObj item) =
      map (variant_record item idx)
        (List.map_filter (usable_code be oc t)
           (takeWhile (\<lambda>v. \<not> call_fails be oc t v) (descriptors be t)))"
    by (simp add: entry_variants_def gate)
  have pe: "process_entry be idx (JObj item) results =
      (case analyze_vulnerabilities be t of
         Inl e \<Rightarrow> results
       | Inr vulns \<Rightarrow>
           if \<not> truthy vulns then results
           else (case py_iter vulns of
                   Inl e \<Rightarrow> results
                 | Inr descs \<Rightarrow> variant_loop be item idx oc t descs results))"
    by (simp add: process_entry_def e)
  show ?thesis
  proof (cases "analyze_vulnerabilities be t")
    case (Inl x)
    then show ?thesis
      by (simp add: e(1) pe ev descriptors_def map_filter_simps)
  next
    case (Inr vulns)
    show ?thesis
    proof (cases "py_iter vulns")
      case (Inl x)
      with Inr show ?thesis
        by (simp add: e(1) pe ev descriptors_def map_filter_simps)
    next
      case iter: (Inr ds)
      show ?thesis
      proof (cases "truthy vulns")
        case True
        with Inr iter show ?thesis
          by (simp add: e(1) pe ev descriptors_def variant_loop_eq)
      next
        case False
        from False iter have "ds = []" by (rule py_iter_falsy)
        with False Inr iter show ?thesis
          by (simp add: e(1) pe ev descriptors_def map_filter_simps)
      qed
    qed
  qed
qed

lemma process_entries_from_eq:
  "process_entries_from be idx entries results =
     results @ concat (map (\<lambda>(i, e). entry_variants be i e) (enumerate idx entries))"
  by (induction entries arbitrary: idx results) (simp_all add: process_entry_eq)

lemma process_entries_eq:
  "process_entries be entries =
     concat (map (\<lambda>(i, e). entry_variants be i e) (enumerate 0 entries))"
  by (simp add: process_entries_def process_entries_from_eq)

lemma entry_gate_SomeD:
  "entry_gate entry = Some (item, t, oc) \<Longrightarrow>
     entry = JObj item \<and> dict_get item ''answer'' (JStr []) = JStr t
     \<and> dict_get item ''origin_code'' (JStr []) = JStr oc
     \<and> contains t insecure_marker \<and> strip oc \<noteq> [] \<and> oc \<noteq> []"
  by (auto simp: entry_gate_def strip_def rstrip_def lstrip_def split: json.splits if_splits)

section \<open>Index assignment and injection\<close>

lemma fields_variant_record:
  "fields (variant_record item i code) k =
     (if k = ''patched_code'' then Some (JStr code)
      else if k = ''index'' then Some (JNum (of_nat i))
      else map_of item k)"
  by (simp add: fields_def variant_record_def update_conv')

lemma entry_variants_source:
  assumes "r \<in> set (entry_variants be i e)"
  shows "\<exists>item code. e = JObj item \<and> r = variant_record item i code"
proof (cases "entry_gate e")
  case None
  with assms show ?thesis by (simp add: entry_variants_def)
next
  case (Some g)
  obtain item t oc where g: "g = (item, t, oc)" by (cases g)
  from Some g have "e = JObj item" by (auto dest: entry_gate_SomeD)
  with assms Some g show ?thesis by (auto simp: entry_variants_def)
qed

lemma process_entries_source:
  assumes "r \<in> set (process_entries be entries)"
  shows "\<exists>i < length entries. \<exists>item code. entries ! i = JObj item \<and> r = variant_record item i code"
proof -
  from assms obtain i e where ie: "(i, e) \<in> set (enumerate 0 entries)"
    and r: "r \<in> set (entry_variants be i e)"
    by (auto simp: process_entries_eq)
  from ie have "i < length entries" "entries ! i = e"
    by (auto simp: in_set_enumerate_eq)
  with entry_variants_source [OF r] show ?thesis by auto
qed

lemma inject_length:
  "length (inject_index_for_pair code_arr ans_arr) = length ans_arr"
  by (induction code_arr ans_arr rule: inject_index_for_pair.induct) simp_all

lemma inject_nth:
  "p < length ans_arr \<Longrightarrow>
   inject_index_for_pair code_arr ans_arr ! p =
     (if p < length code_arr then inject_index (code_arr ! p) (ans_arr ! p) else ans_arr ! p)"
proof (induction code_arr ans_arr arbitrary: p rule: inject_index_for_pair.induct)
  case (1 ans_arr)
  show ?case by simp
next
  case (2 code_obj code_arr)
  then show ?case by simp
next
  case (3 code_obj code_arr ans_obj ans_arr)
  then show ?case by (cases p) simp_all
qed

lemma inject_index_copies:
  "map_of cd ''index'' = Some v \<Longrightarrow>
   fields (inject_index (JObj cd) (JObj ad)) = (map_of ad)(''index'' \<mapsto> v)"
  by (simp add: inject_index_def fields_def update_conv')

lemma inject_index_skips:
  "map_of cd ''index'' = None \<Longrightarrow> inject_index (JObj cd) ans_obj = ans_obj"
  by (simp add: inject_index_def split: json.splits)

text \<open>
  C8 (as amended). Variant generation gives every variant the position of its source entry in
  the input list as \<open>index\<close>, whatever index the entry carried, and copies the other fields of
  the entry. Index injection keeps the length of the answer array, copies the index of the
  code record at each position that both arrays have into the answer record there (over any
  index it had), changes no other field, and leaves an answer record as it is when the code
  record has no index or there is none.
\<close>

theorem index_assigned_by_position:
  "(\<forall>r \<in> set (process_entries be entries).
      \<exists>i < length entries. \<exists>item code.
        entries ! i = JObj item \<and> r = variant_record item i code
        \<and> fields r ''index'' = Some (JNum (of_nat i))
        \<and> (\<forall>k. k \<noteq> ''index'' \<and> k \<noteq> ''patched_code'' \<longrightarrow> fields r k = map_of item k))
   \<and> length (inject_index_for_pair code_arr ans_arr) = length ans_arr
   \<and> (\<forall>p < length ans_arr.
        inject_index_for_pair code_arr ans_arr ! p =
          (if p < length code_arr then inject_index (code_arr ! p) (ans_arr ! p)
           else ans_arr ! p))
   \<and> (map_of cd ''index'' = Some v \<longrightarrow>
        fields (inject_index (JObj cd) (JObj ad)) = (map_of ad)(''index'' \<mapsto> v))
   \<and> (map_of cd ''index'' = None \<longrightarrow> inject_index (JObj cd) ans_obj = ans_obj)"
proof -
  have "\<exists>i < length entries. \<exists>item code.
        entries ! i = JObj item \<and> r = variant_record item i code
        \<and> fields r ''index'' = Some (JNum (of_nat i))
        \<and> (\<forall>k. k \<noteq> ''index'' \<and> k \<noteq> ''patched_code'' \<longrightarrow> fields r k = map_of item k)"
    if "r \<in> set (process_entries be entries)" for r
  proof -
    from process_entries_source [OF that] obtain i item code
      where "i < length entries" "entries ! i = JObj item" "r = variant_record item i code"
      by blast
    then show ?thesis
      by (auto simp: fields_variant_record)
  qed
  then have c1: "\<forall>r \<in> set (process_entries be entries).
      \<exists>i < length entries. \<exists>item code.
        entries ! i = JObj item \<and> r = variant_record item i code
        \<and> fields r ''index'' = Some (JNum (of_nat i))
        \<and> (\<forall>k. k \<noteq> ''index'' \<and> k \<noteq> ''patched_code'' \<longrightarrow> fields r k = map_of item k)"
    by (rule ballI)
  have c2: "length (inject_index_for_pair code_arr ans_arr) = length ans_arr"
    by (rule inject_length)
  have c3: "\<forall>p < length ans_arr.
        inject_index_for_pair code_arr ans_arr ! p =
          (if p < length code_arr then inject_index (code_arr ! p) (ans_arr ! p)
           else ans_arr ! p)"
    by (intro allI impI) (rule inject_nth)
  have c4: "map_of cd ''index'' = Some v \<longrightarrow>
        fields (inject_index (JObj cd) (JObj ad)) = (map_of ad)(''index'' \<mapsto> v)"
    by (intro impI) (rule inject_index_copies)
  have c5: "map_of cd ''index'' = None \<longrightarrow> inject_index (JObj cd) ans_obj = ans_obj"
    by (intro impI) (rule inject_index_skips)
  show ?thesis
    by (rule conjI [OF c1 conjI [OF c2 conjI [OF c3 conjI [OF c4 c5]]]])
qed

theorem index_assigned_by_position_witness:
  "(\<exists>i < length [JObj indexed_item]. \<exists>item code.
        [JObj indexed_item] ! i = JObj item
        \<and> variant_record indexed_item 0 ''int x;'' = variant_record item i code
        \<and> fields (variant_record indexed_item 0 ''int x;'') ''index'' = Some (JNum (of_nat i))
        \<and> (\<forall>k. k \<noteq> ''index'' \<and> k \<noteq> ''patched_code'' \<longrightarrow>
              fields (variant_record indexed_item 0 ''int x;'') k = map_of item k))
   \<and> length (inject_index_for_pair code_file answer_file) = 3
   \<and> inject_index_for_pair code_file answer_file ! 0
       = JObj [(''answer'', JStr insecure_text), (''index'', JNum 3)]
   \<and> inject_index_for_pair code_file answer_file ! 1 = answer_file ! 1
   \<and> inject_index_for_pair code_file answer_file ! 2 = answer_file ! 2"
proof -
  note th = index_assigned_by_position [of stub "[JObj indexed_item]" code_file answer_file]
  have m: "variant_record indexed_item 0 ''int x;'' \<in> set (process_entries stub [JObj indexed_item])"
    by code_simp
  have l: "length answer_file = 3" "(0::nat) < length answer_file" "(1::nat) < length answer_file"
    "(2::nat) < length answer_file"
    by (simp_all add: answer_file_def)
  have c: "(if (0::nat) < length code_file then inject_index (code_file ! 0) (answer_file ! 0)
            else answer_file ! 0) = JObj [(''answer'', JStr insecure_text), (''index'', JNum 3)]"
    "(if (1::nat) < length code_file then inject_index (code_file ! 1) (answer_file ! 1)
            else answer_file ! 1) = answer_file ! 1"
    "(if (2::nat) < length code_file then inject_index (code_file ! 2) (answer_file ! 2)
            else answer_file ! 2) = answer_file ! 2"
    by code_simp+
  note nth = th [THEN conjunct2, THEN conjunct2, THEN conjunct1, rule_format]
  have w1: "\<exists>i < length [JObj indexed_item]. \<exists>item code.
        [JObj indexed_item] ! i = JObj item
        \<and> variant_record indexed_item 0 ''int x;'' = variant_record item i code
        \<and> fields (variant_record indexed_item 0 ''int x;'') ''index'' = Some (JNum (of_nat i))
        \<and> (\<forall>k. k \<noteq> ''index'' \<and> k \<noteq> ''patched_code'' \<longrightarrow>
              fields (variant_record indexed_item 0 ''int x;'') k = map_of item k)"
    by (rule bspec [OF th [THEN conjunct1] m])
  have w2: "length (inject_index_for_pair code_file answer_file) = 3"
    using th [THEN conjunct2, THEN conjunct1] l(1) by (rule trans)
  have w3: "inject_index_for_pair code_file answer_file ! 0
       = JObj [(''answer'', JStr insecure_text), (''index'', JNum 3)]"
    using nth [OF l(2)] c(1) by (rule trans)
  have w4: "inject_index_for_pair code_file answer_file ! 1 = answer_file ! 1"
    using nth [OF l(3)] c(2) by (rule trans)
  have w5: "inject_index_for_pair code_file answer_file ! 2 = answer_file ! 2"
    using nth [OF l(4)] c(3) by (rule trans)
  show ?thesis
    by (rule conjI [OF w1 conjI [OF w2 conjI [OF w3 conjI [OF w4 w5]]]])
qed

text \<open>
  The entry at position 0 carries the index 7; its variant carries the index 0.
\<close>

theorem index_overwritten_counterexample:
  "fields (JObj indexed_item) ''index'' = Some (JNum 7)
   \<and> map (\<lambda>r. fields r ''index'') (process_entries stub [JObj indexed_item]) = [Some (JNum 0)]"
  by code_simp

section \<open>Variant generation: one variant per usable response\<close>

lemma entry_variants_all_answered:
  assumes g: "entry_gate e = Some (item, t, oc)"
    and ok: "\<forall>v \<in> set (descriptors be t). \<not> call_fails be oc t v"
  shows "entry_variants be i e =
      map (variant_record item i) (List.map_filter (usable_code be oc t) (descriptors be t))"
proof -
  from ok have tw: "takeWhile (\<lambda>v. \<not> call_fails be oc t v) (descriptors be t) = descriptors be t"
    by (simp add: takeWhile_eq_all_conv)
  show ?thesis
    unfolding entry_variants_def g by (simp only: tw option.case prod.case)
qed

lemma entry_variants_gate:
  assumes "entry_variants be i e \<noteq> []"
  shows "\<exists>item t oc. e = JObj item \<and> dict_get item ''answer'' (JStr []) = JStr t
      \<and> contains t insecure_marker
      \<and> dict_get item ''origin_code'' (JStr []) = JStr oc \<and> strip oc \<noteq> [] \<and> oc \<noteq> []"
proof (cases "entry_gate e")
  case None
  with assms show ?thesis by (simp add: entry_variants_def)
next
  case (Some g)
  obtain item t oc where "g = (item, t, oc)" by (cases g)
  with Some have "entry_gate e = Some (item, t, oc)" by simp
  from entry_gate_SomeD [OF this] show ?thesis by blast
qed

lemma entry_variants_none:
  "entry_gate e = Some (item, t, oc) \<Longrightarrow> descriptors be t = [] \<Longrightarrow> entry_variants be i e = []"
  by (simp add: entry_variants_def map_filter_simps)

lemma usable_code_no_block:
  "generate_variant be oc t v = Inr None \<Longrightarrow> usable_code be oc t v = None"
  by (simp add: usable_code_def)

lemma length_map_filter:
  "length (List.map_filter f xs) = length (filter (\<lambda>x. f x \<noteq> None) xs)"
  by (induction xs) (auto simp: map_filter_simps split: option.splits)

text \<open>
  C9 (as amended). The variant state machine emits, entry by entry and in input order, the
  variants of every entry. An entry has variants only if it is an object whose answer is a
  string that contains the marker and whose \<open>origin_code\<close> is a string that is not blank
  (hence not empty). For such an entry, when no patch request raises, it emits exactly one
  variant per extracted descriptor whose patch response has a fenced block with a non-empty
  body, in the order of the descriptors. An entry with no descriptors yields no variant, and a
  patch response with no extractable block yields no variant for its descriptor.
\<close>

theorem process_entries_variants:
  "process_entries be entries =
     concat (map (\<lambda>(i, e). entry_variants be i e) (enumerate 0 entries))
   \<and> (entry_variants be i e \<noteq> [] \<longrightarrow>
        (\<exists>item t oc. e = JObj item \<and> dict_get item ''answer'' (JStr []) = JStr t
           \<and> contains t insecure_marker
           \<and> dict_get item ''origin_code'' (JStr []) = JStr oc \<and> strip oc \<noteq> [] \<and> oc \<noteq> []))
   \<and> (entry_gate e = Some (item, t, oc)
        \<and> (\<forall>v \<in> set (descriptors be t). \<not> call_fails be oc t v) \<longrightarrow>
        entry_variants be i e =
          map (variant_record item i) (List.map_filter (usable_code be oc t) (descriptors be t))
        \<and> length (entry_variants be i e) =
          length (filter (\<lambda>v. usable_code be oc t v \<noteq> None) (descriptors be t)))
   \<and> (entry_gate e = Some (item, t, oc) \<and> descriptors be t = [] \<longrightarrow> entry_variants be i e = [])
   \<and> (generate_variant be oc t v = Inr None \<longrightarrow> usable_code be oc t v = None)"
proof -
  have c1: "process_entries be entries =
     concat (map (\<lambda>(i, e). entry_variants be i e) (enumerate 0 entries))"
    by (rule process_entries_eq)
  have c2: "entry_variants be i e \<noteq> [] \<longrightarrow>
        (\<exists>item t oc. e = JObj item \<and> dict_get item ''answer'' (JStr []) = JStr t
           \<and> contains t insecure_marker
           \<and> dict_get item ''origin_code'' (JStr []) = JStr oc \<and> strip oc \<noteq> [] \<and> oc \<noteq> [])"
    by (intro impI) (rule entry_variants_gate)
  have c3: "entry_gate e = Some (item, t, oc)
        \<and> (\<forall>v \<in> set (descriptors be t). \<not> call_fails be oc t v) \<longrightarrow>
        entry_variants be i e =
          map (variant_record item i) (List.map_filter (usable_code be oc t) (descriptors be t))
        \<and> length (entry_variants be i e) =
          length (filter (\<lambda>v. usable_code be oc t v \<noteq> None) (descriptors be t))"
  proof (intro impI, elim conjE)
    assume g: "entry_gate e = Some (item, t, oc)"
      and ok: "\<forall>v \<in> set (descriptors be t). \<not> call_fails be oc t v"
    have eq: "entry_variants be i e =
        map (variant_record item i) (List.map_filter (usable_code be oc t) (descriptors be t))"
      using g ok by (rule entry_variants_all_answered)
    moreover have "length (entry_variants be i e) =
        length (filter (\<lambda>v. usable_code be oc t v \<noteq> None) (descriptors be t))"
      unfolding eq by (simp add: length_map_filter)
    ultimately show "entry_variants be i e =
          map (variant_record item i) (List.map_filter (usable_code be oc t) (descriptors be t))
        \<and> length (entry_variants be i e) =
          length (filter (\<lambda>v. usable_code be oc t v \<noteq> None) (descriptors be t))"
      by (rule conjI)
  qed
  have c4: "entry_gate e = Some (item, t, oc) \<and> descriptors be t = [] \<longrightarrow>
      entry_variants be i e = []"
    by (intro impI, elim conjE) (rule entry_variants_none)
  have c5: "generate_variant be oc t v = Inr None \<longrightarrow> usable_code be oc t v = None"
    by (intro impI) (rule usable_code_no_block)
  show ?thesis
    by (rule conjI [OF c1 conjI [OF c2 conjI [OF c3 conjI [OF c4 c5]]]])
qed

theorem process_entries_variants_witness:
  "process_entries stub [JObj indexed_item] = [variant_record indexed_item 0 ''int x;'']
   \<and> entry_variants stub 0 (JObj indexed_item) =
       map (variant_record indexed_item 0)
         (List.map_filter (usable_code stub ''void f(){ strcpy(a,b); }'' insecure_text)
            (descriptors stub insecure_text))
   \<and> length (entry_variants stub 0 (JObj indexed_item)) = 1"
proof -
  note th = process_entries_variants [of stub "[JObj indexed_item]" 0 "JObj indexed_item"
      indexed_item insecure_text "''void f(){ strcpy(a,b); }''"]
  have g: "entry_gate (JObj indexed_item)
      = Some (indexed_item, insecure_text, ''void f(){ strcpy(a,b); }'')"
    by code_simp
  have ok: "\<forall>v \<in> set (descriptors stub insecure_text).
      \<not> call_fails stub ''void f(){ strcpy(a,b); }'' insecure_text v"
    by code_simp
  have ev: "concat (map (\<lambda>(i, e). entry_variants stub i e) (enumerate 0 [JObj indexed_item]))
      = [variant_record indexed_item 0 ''int x;'']"
    by code_simp
  have n: "length (filter (\<lambda>v. usable_code stub ''void f(){ strcpy(a,b); }'' insecure_text v
      \<noteq> None) (descriptors stub insecure_text)) = 1"
    by code_simp
  have w1: "process_entries stub [JObj indexed_item] = [variant_record indexed_item 0 ''int x;'']"
    using th [THEN conjunct1] ev by (rule trans)
  note c3 = th [THEN conjunct2, THEN conjunct2, THEN conjunct1, rule_format, OF conjI [OF g ok]]
  have w3: "length (entry_variants stub 0 (JObj indexed_item)) = 1"
    using c3 [THEN conjunct2] n by (rule trans)
  show ?thesis
    by (rule conjI [OF w1 conjI [OF c3 [THEN conjunct1] w3]])
qed

text \<open>
  An entry whose answer contains the marker and whose \<open>origin_code\<close> is the non-empty string of
  one blank, with one extracted descriptor whose patch response has an extractable block: no
  variant is emitted.
\<close>

theorem blank_origin_code_counterexample:
  "dict_get blank_code_item ''answer'' (JStr []) = JStr insecure_text
   \<and> contains insecure_text insecure_marker
   \<and> dict_get blank_code_item ''origin_code'' (JStr []) = JStr '' ''
   \<and> '' '' \<noteq> ''''
   \<and> descriptors stub insecure_text = [JStr ''unchecked strcpy'']
   \<and> generate_variant stub '' '' insecure_text (JStr ''unchecked strcpy'') = Inr (Some ''int x;'')
   \<and> process_entries stub [JObj blank_code_item] = []"
  by code_simp

section \<open>The dispatcher: input order, skipped items\<close>

lemma fold_slots:
  "length init = length tasks \<Longrightarrow>
   length (fold (\<lambda>i slots. if i < length tasks then slots[i := Some (tasks ! i)] else slots)
             order init) = length tasks
   \<and> (\<forall>j < length tasks.
        fold (\<lambda>i slots. if i < length tasks then slots[i := Some (tasks ! i)] else slots)
          order init ! j
        = (if j \<in> set order then Some (tasks ! j) else init ! j))"
proof (induction order arbitrary: init)
  case Nil
  then show ?case by simp
next
  case (Cons i order)
  let ?init = "if i < length tasks then init[i := Some (tasks ! i)] else init"
  from Cons.prems have l: "length ?init = length tasks" by simp
  from Cons.IH [OF l] Cons.prems show ?case
    by (auto simp: nth_list_update)
qed

lemma gather_eq:
  "gather order tasks = (if {0..<length tasks} \<subseteq> set order then Some tasks else None)"
proof -
  let ?slots = "fold (\<lambda>i slots. if i < length tasks then slots[i := Some (tasks ! i)] else slots)
                  order (replicate (length tasks) None)"
  from fold_slots [of "replicate (length tasks) None" tasks order]
  have len: "length ?slots = length tasks"
    and nth: "\<And>j. j < length tasks \<Longrightarrow>
      ?slots ! j = (if j \<in> set order then Some (tasks ! j) else None)"
    by simp_all
  show ?thesis
  proof (cases "{0..<length tasks} \<subseteq> set order")
    case True
    with nth have s: "\<And>j. j < length tasks \<Longrightarrow> ?slots ! j = Some (tasks ! j)"
      by auto
    have "list_all (\<lambda>s. s \<noteq> None) ?slots"
      unfolding list_all_length using s len by simp
    moreover have "map the ?slots = tasks"
      by (rule nth_equalityI) (simp_all add: len s)
    ultimately show ?thesis
      using True by (simp add: gather_def)
  next
    case False
    then have "\<exists>j. j < length tasks \<and> j \<notin> set order"
      by (auto simp: subset_eq)
    then obtain j where j: "j < length tasks" "j \<notin> set order" by blast
    with nth have "?slots ! j = None" by simp
    with j len have "\<not> list_all (\<lambda>s. s \<noteq> None) ?slots"
      unfolding list_all_length by auto
    with False show ?thesis
      by (simp add: gather_def)
  qed
qed

lemma process_item_gate:
  "process_item call item =
     (case entry_gate item of
        None \<Rightarrow> None
      | Some (d, t, oc) \<Rightarrow> Some (patched_item call d t oc))"
  by (cases item)
     (auto simp: process_item_def entry_gate_def patched_item_def
        split: json.splits sum.splits)

lemma kept_process_item:
  "kept (process_item call item) = (entry_gate item \<noteq> None)"
  by (auto simp: process_item_gate kept_def patched_item_def split: option.splits)

lemma filter_kept_eq:
  "map the (filter kept (map (\<lambda>(i, item). process_item (call i) item) xs))
     = List.map_filter
         (\<lambda>(i, item). case entry_gate item of
                         None \<Rightarrow> None
                       | Some (d, t, oc) \<Rightarrow> Some (patched_item (call i) d t oc)) xs"
proof (induction xs)
  case Nil
  show ?case by (simp add: map_filter_simps)
next
  case (Cons x xs)
  obtain i item where x: "x = (i, item)" by (cases x)
  show ?case
  proof (cases "entry_gate item")
    case None
    with Cons show ?thesis
      by (simp add: x kept_process_item map_filter_simps)
  next
    case (Some g)
    moreover have "kept (process_item (call i) item)"
      using Some by (simp add: kept_process_item)
    ultimately show ?thesis
      using Cons by (simp add: x map_filter_simps process_item_gate split: prod.splits)
  qed
qed

lemma length_dispatched:
  "length (dispatched call data) = length (filter (\<lambda>item. entry_gate item \<noteq> None) data)"
proof -
  have "length (List.map_filter
         (\<lambda>(i, item). case entry_gate item of
                         None \<Rightarrow> None
                       | Some (d, t, oc) \<Rightarrow> Some (patched_item (call i) d t oc)) xs)
      = length (filter (\<lambda>item. entry_gate item \<noteq> None) (map snd xs))" for xs
    by (induction xs) (auto simp: map_filter_simps split: option.splits prod.splits)
  from this [of "enumerate 0 data"] show ?thesis
    by (simp add: dispatched_def)
qed

lemma length_filter_all:
  "(length (filter P xs) = length xs) = (\<forall>x \<in> set xs. P x)"
proof (induction xs)
  case Nil
  show ?case by simp
next
  case (Cons x xs)
  have "length (filter P xs) \<noteq> Suc (length xs)"
    using length_filter_le [of P xs] by arith
  with Cons show ?case by auto
qed

lemma patch_code_from_file_eq:
  assumes "{0..<length data} \<subseteq> set order"
  shows "patch_code_from_file order call data = Some (dispatched call data)"
proof -
  let ?tasks = "map (\<lambda>(i, item). process_item (call i) item) (enumerate 0 data)"
  from assms have "gather order ?tasks = Some ?tasks"
    by (simp add: gather_eq)
  then show ?thesis
    by (simp add: patch_code_from_file_def dispatched_def filter_kept_eq)
qed

text \<open>
  C1 (as amended). The awaited list holds one result per task, in task order, whatever the
  order in which the tasks finish. The list that \<open>patch_code_from_file\<close> writes is this list
  without the results of the skipped items: the records of the items that pass the gates, in
  input order. Its length is the number of those items, at most the length of the input, and
  equal to it exactly when no item is skipped.
\<close>

theorem dispatcher_keeps_input_order:
  "gather order tasks = (if {0..<length tasks} \<subseteq> set order then Some tasks else None)
   \<and> ({0..<length data} \<subseteq> set order \<longrightarrow>
        patch_code_from_file order call data = Some (dispatched call data))
   \<and> length (dispatched call data) = length (filter (\<lambda>item. entry_gate item \<noteq> None) data)
   \<and> length (dispatched call data) \<le> length data
   \<and> (length (dispatched call data) = length data)
       = (\<forall>item \<in> set data. entry_gate item \<noteq> None)"
proof -
  have c1: "gather order tasks
      = (if {0..<length tasks} \<subseteq> set order then Some tasks else None)"
    by (rule gather_eq)
  have c2: "{0..<length data} \<subseteq> set order \<longrightarrow>
        patch_code_from_file order call data = Some (dispatched call data)"
    by (intro impI) (rule patch_code_from_file_eq)
  have c3: "length (dispatched call data)
      = length (filter (\<lambda>item. entry_gate item \<noteq> None) data)"
    by (rule length_dispatched)
  have c4: "length (dispatched call data) \<le> length data"
    unfolding c3 by (rule length_filter_le)
  have c5: "(length (dispatched call data) = length data)
       = (\<forall>item \<in> set data. entry_gate item \<noteq> None)"
    unfolding c3 by (rule length_filter_all)
  show ?thesis
    by (rule conjI [OF c1 conjI [OF c2 conjI [OF c3 conjI [OF c4 c5]]]])
qed

theorem dispatcher_keeps_input_order_witness:
  "patch_code_from_file [2, 0, 1] reply three_items = Some (dispatched reply three_items)
   \<and> patch_code_from_file [0, 1, 2] reply three_items = Some (dispatched reply three_items)
   \<and> length (dispatched reply three_items) = 2
   \<and> length three_items = 3"
proof -
  have o1: "{0..<length three_items} \<subseteq> set [2, 0, 1]"
    by code_simp
  have o2: "{0..<length three_items} \<subseteq> set [0, 1, 2]"
    by code_simp
  have n: "length (filter (\<lambda>item. entry_gate item \<noteq> None) three_items) = 2"
    by code_simp
  have l: "length three_items = 3"
    by (simp add: three_items_def)
  note t1 = dispatcher_keeps_input_order [of "[2, 0, 1]" "[]" three_items reply]
  note t2 = dispatcher_keeps_input_order [of "[0, 1, 2]" "[]" three_items reply]
  have w1: "patch_code_from_file [2, 0, 1] reply three_items = Some (dispatched reply three_items)"
    by (rule t1 [THEN conjunct2, THEN conjunct1, rule_format, OF o1])
  have w2: "patch_code_from_file [0, 1, 2] reply three_items = Some (dispatched reply three_items)"
    by (rule t2 [THEN conjunct2, THEN conjunct1, rule_format, OF o2])
  have w3: "length (dispatched reply three_items) = 2"
    using t1 [THEN conjunct2, THEN conjunct2, THEN conjunct1] n by (rule trans)
  show ?thesis
    by (rule conjI [OF w1 conjI [OF w2 conjI [OF w3 l]]])
qed

text \<open>One input item, with a \<open>Secure\<close> answer: the output is empty.\<close>

theorem dispatcher_drops_skipped_counterexample:
  "patch_code_from_file [0] reply [secure_item] = Some []
   \<and> length [secure_item] = 1"
  by code_simp

section \<open>Finding a substring\<close>

lemma startswith_Nil [simp]: "startswith s []"
  by (simp add: startswith_def)

lemma startswith_append: "startswith (p @ s) p"
  by (simp add: startswith_def)

lemma startswith_length: "startswith s p \<Longrightarrow> length p \<le> length s"
proof -
  assume "startswith s p"
  then have "length (take (length p) s) = length p"
    by (simp add: startswith_def)
  then show ?thesis by simp
qed

lemma startswith_empty [simp]: "startswith [] sub = (sub = [])"
  by (auto simp: startswith_def)

lemma plus_Suc_0: "(+) (Suc 0) = Suc"
  by (simp add: fun_eq_iff)

lemma startswith_iff: "startswith s p = (\<exists>r. s = p @ r)"
proof
  assume "startswith s p"
  then have "s = p @ drop (length p) s"
    unfolding startswith_def by (metis append_take_drop_id)
  then show "\<exists>r. s = p @ r" ..
next
  assume "\<exists>r. s = p @ r"
  then show "startswith s p" by (auto simp: startswith_def)
qed

lemma startswith_skip:
  assumes "c \<notin> set sub"
  shows "startswith (xs @ c # rest) sub = startswith xs sub"
proof (cases "length sub \<le> length xs")
  case True
  then show ?thesis by (simp add: startswith_def)
next
  case False
  then have "\<not> startswith xs sub"
    using startswith_length by blast
  moreover have "\<not> startswith (xs @ c # rest) sub"
  proof
    assume "startswith (xs @ c # rest) sub"
    then obtain r where r: "xs @ c # rest = sub @ r"
      unfolding startswith_iff by blast
    from False have "length xs < length sub" by simp
    with r have "sub ! length xs = c"
      by (metis nth_append nth_append_length)
    with \<open>length xs < length sub\<close> assms show False
      by (metis nth_mem)
  qed
  ultimately show ?thesis by simp
qed

lemma find_str_skip:
  assumes "c \<notin> set sub"
  shows "find_str (pre @ c # rest) sub =
     (case find_str pre sub of
        Some k \<Rightarrow> Some k
      | None \<Rightarrow> map_option (\<lambda>k. length pre + 1 + k) (find_str rest sub))"
proof (induction pre)
  case Nil
  show ?case
  proof (cases sub)
    case Nil
    then show ?thesis by simp
  next
    case (Cons d ds)
    with assms have "\<not> startswith (c # rest) sub"
      by (auto simp: startswith_def)
    with Cons show ?thesis
      by (cases "find_str rest sub") simp_all
  qed
next
  case (Cons p pre)
  have s: "startswith ((p # pre) @ c # rest) sub = startswith (p # pre) sub"
    using assms by (rule startswith_skip)
  show ?case
  proof (cases "startswith (p # pre) sub")
    case True
    with s show ?thesis by simp
  next
    case False
    with s have n: "\<not> startswith (p # pre @ c # rest) sub" by simp
    show ?thesis
      using False n Cons.IH
      by (cases "find_str pre sub"; cases "find_str rest sub") simp_all
  qed
qed

lemma find_str_Some_startswith:
  "find_str s sub = Some k \<Longrightarrow> k \<le> length s \<and> startswith (drop k s) sub"
proof (induction s arbitrary: k)
  case Nil
  then show ?case by (auto split: if_splits)
next
  case (Cons c cs)
  show ?case
  proof (cases "startswith (c # cs) sub")
    case True
    with Cons.prems show ?thesis by simp
  next
    case False
    with Cons.prems obtain j where "find_str cs sub = Some j" "k = Suc j"
      by auto
    with Cons.IH [of j] show ?thesis by simp
  qed
qed

lemma find_str_first:
  "find_str s sub = Some k \<Longrightarrow> j < k \<Longrightarrow> \<not> startswith (drop j s) sub"
proof (induction s arbitrary: k j)
  case Nil
  then show ?case by (auto split: if_splits)
next
  case (Cons c cs)
  show ?case
  proof (cases "startswith (c # cs) sub")
    case True
    with Cons.prems show ?thesis by simp
  next
    case False
    with Cons.prems obtain i where i: "find_str cs sub = Some i" "k = Suc i"
      by auto
    show ?thesis
    proof (cases j)
      case 0
      with False show ?thesis by simp
    next
      case (Suc j')
      with Cons.prems(2) i have "j' < i" by simp
      from Cons.IH [OF i(1) this] Suc show ?thesis by simp
    qed
  qed
qed

lemma find_str_None:
  "find_str s sub = None \<Longrightarrow> j \<le> length s \<Longrightarrow> \<not> startswith (drop j s) sub"
proof (induction s arbitrary: j)
  case Nil
  then show ?case by (auto split: if_splits)
next
  case (Cons c cs)
  from Cons.prems(1) have n: "\<not> startswith (c # cs) sub" "find_str cs sub = None"
    by (auto split: if_splits)
  show ?case
  proof (cases j)
    case 0
    with n show ?thesis by simp
  next
    case (Suc j')
    with Cons.prems(2) have "j' \<le> length cs" by simp
    from Cons.IH [OF n(2) this] Suc show ?thesis by simp
  qed
qed

lemma find_str_NoneI:
  "(\<And>j. j \<le> length s \<Longrightarrow> \<not> startswith (drop j s) sub) \<Longrightarrow> find_str s sub = None"
proof (induction s)
  case Nil
  from Nil [of 0] have "sub \<noteq> []" by auto
  then show ?case by simp
next
  case (Cons c cs)
  from Cons.prems [of 0] have n: "\<not> startswith (c # cs) sub" by simp
  have "find_str cs sub = None"
  proof (rule Cons.IH)
    fix j assume "j \<le> length cs"
    then have "Suc j \<le> length (c # cs)" by simp
    from Cons.prems [OF this] show "\<not> startswith (drop j cs) sub" by simp
  qed
  with n show ?case by simp
qed

lemma find_str_None_prefix:
  assumes "find_str (xs @ ys) sub = None"
  shows "find_str xs sub = None"
proof (rule find_str_NoneI)
  fix j assume j: "j \<le> length xs"
  then have "j \<le> length (xs @ ys)" by simp
  from find_str_None [OF assms this] have n: "\<not> startswith (drop j xs @ ys) sub"
    using j by simp
  show "\<not> startswith (drop j xs) sub"
  proof
    assume "startswith (drop j xs) sub"
    then obtain r where "drop j xs = sub @ r" unfolding startswith_iff by blast
    then have "drop j xs @ ys = sub @ (r @ ys)" by simp
    then have "startswith (drop j xs @ ys) sub" unfolding startswith_iff by blast
    with n show False by simp
  qed
qed

lemma find_str_take_None:
  assumes "find_str s sub = Some k" and "sub \<noteq> []"
  shows "find_str (take k s) sub = None"
proof (rule find_str_NoneI)
  fix j assume j: "j \<le> length (take k s)"
  from find_str_Some_startswith [OF assms(1)] have kl: "k \<le> length s" by simp
  with j have jk: "j \<le> k" by simp
  show "\<not> startswith (drop j (take k s)) sub"
  proof
    assume sw: "startswith (drop j (take k s)) sub"
    then obtain r where r: "drop j (take k s) = sub @ r" unfolding startswith_iff by blast
    with assms(2) have "drop j (take k s) \<noteq> []" by simp
    with jk kl have lt: "j < k" by (cases "j = k") simp_all
    have "drop j s = drop j (take k s) @ drop k s"
      using jk by (metis append_take_drop_id drop_append drop_take length_take min.absorb2 kl
          diff_is_0_eq drop0)
    with r have "drop j s = sub @ (r @ drop k s)" by simp
    then have "startswith (drop j s) sub" unfolding startswith_iff by blast
    with find_str_first [OF assms(1) lt] show False by simp
  qed
qed

lemma find_str_at_start: "startswith s sub \<Longrightarrow> find_str s sub = Some 0"
  by (cases s) (auto simp: startswith_def)

section \<open>Trimming and splitting into lines\<close>

lemma linebreak_isspace: "is_linebreak c \<Longrightarrow> isspace c"
  by (auto simp: is_linebreak_def isspace_def Let_def)

lemma isspace_LF [simp]: "isspace LF"
  by (simp add: isspace_def LF_def)

lemma is_linebreak_LF [simp]: "is_linebreak LF"
  by (simp add: is_linebreak_def LF_def)

lemma is_linebreak_CR [simp]: "is_linebreak CR"
  by (simp add: is_linebreak_def CR_def)

lemma LF_neq_CR [simp]: "LF \<noteq> CR" "CR \<noteq> LF"
  by (simp_all add: LF_def CR_def)

lemma rstrip_append_nonspace:
  assumes "\<not> list_all isspace ys"
  shows "rstrip (xs @ ys) = xs @ rstrip ys"
proof -
  from assms obtain y where "y \<in> set (rev ys)" "\<not> isspace y"
    by (auto simp: list_all_iff)
  then have "dropWhile isspace (rev ys @ rev xs) = dropWhile isspace (rev ys) @ rev xs"
    by (rule dropWhile_append1)
  then show ?thesis by (simp add: rstrip_def)
qed

lemma rstrip_append_space:
  assumes "list_all isspace ys"
  shows "rstrip (xs @ ys) = rstrip xs"
proof -
  from assms have "\<And>y. y \<in> set (rev ys) \<Longrightarrow> isspace y"
    by (auto simp: list_all_iff)
  then have "dropWhile isspace (rev ys @ rev xs) = dropWhile isspace (rev xs)"
    by (rule dropWhile_append2)
  then show ?thesis by (simp add: rstrip_def)
qed

lemma rstrip_all_space: "list_all isspace s \<Longrightarrow> rstrip s = []"
  using rstrip_append_space [of s "[]"] by (simp add: rstrip_def)

lemma rstrip_noop: "s \<noteq> [] \<Longrightarrow> \<not> isspace (last s) \<Longrightarrow> rstrip s = s"
  by (cases s rule: rev_cases) (simp_all add: rstrip_def)

lemma rstrip_last: "rstrip s \<noteq> [] \<Longrightarrow> \<not> isspace (last (rstrip s))"
proof -
  assume n: "rstrip s \<noteq> []"
  then have d: "dropWhile isspace (rev s) \<noteq> []" by (simp add: rstrip_def)
  then have "\<not> isspace (hd (dropWhile isspace (rev s)))" by (rule hd_dropWhile)
  moreover have "last (rstrip s) = hd (dropWhile isspace (rev s))"
    using d by (simp add: rstrip_def last_rev)
  ultimately show ?thesis by simp
qed

lemma rstrip_idem [simp]: "rstrip (rstrip s) = rstrip s"
  by (cases "rstrip s = []") (simp_all add: rstrip_noop rstrip_last rstrip_def)

lemma lstrip_noop: "\<not> isspace c \<Longrightarrow> lstrip (c # s) = c # s"
  by (simp add: lstrip_def)

lemma lstrip_hd: "lstrip s \<noteq> [] \<Longrightarrow> \<not> isspace (hd (lstrip s))"
  unfolding lstrip_def by (rule hd_dropWhile)

lemma rstrip_Cons_nonspace: "\<not> isspace c \<Longrightarrow> rstrip (c # s) = c # rstrip s"
proof (cases "list_all isspace s")
  case True
  assume "\<not> isspace c"
  with True show ?thesis
    using rstrip_append_space [of s "[c]"] by (simp add: rstrip_all_space rstrip_noop)
next
  case False
  then show ?thesis
    using rstrip_append_nonspace [of s "[c]"] by simp
qed

lemma strip_noop: "s \<noteq> [] \<Longrightarrow> \<not> isspace (hd s) \<Longrightarrow> \<not> isspace (last s) \<Longrightarrow> strip s = s"
  by (cases s) (simp_all add: strip_def lstrip_noop rstrip_noop)

lemma strip_ends:
  assumes "strip s \<noteq> []"
  shows "\<not> isspace (hd (strip s))" "\<not> isspace (last (strip s))"
proof -
  from assms have l: "lstrip s \<noteq> []"
    by (auto simp: strip_def rstrip_def)
  then obtain c cs where c: "lstrip s = c # cs" by (cases "lstrip s") auto
  with lstrip_hd [OF l] have nc: "\<not> isspace c" by simp
  then have "strip s = c # rstrip cs"
    by (simp add: strip_def c rstrip_Cons_nonspace)
  with nc show "\<not> isspace (hd (strip s))" by simp
  from assms show "\<not> isspace (last (strip s))"
    unfolding strip_def by (rule rstrip_last)
qed

lemma strip_idem [simp]: "strip (strip s) = strip s"
proof (cases "strip s = []")
  case True
  have "strip [] = []" by (simp add: strip_def rstrip_def lstrip_def)
  with True show ?thesis by simp
next
  case False
  from strip_ends [OF False] False show ?thesis by (simp add: strip_noop)
qed

lemma set_rstrip: "set (rstrip s) \<subseteq> set s"
  unfolding rstrip_def using set_dropWhileD by fastforce

lemma set_strip: "set (strip s) \<subseteq> set s"
proof -
  have "set (lstrip s) \<subseteq> set s"
    unfolding lstrip_def using set_dropWhileD by fastforce
  with set_rstrip [of "lstrip s"] show ?thesis by (auto simp: strip_def)
qed

lemma rstrip_prefix: "\<exists>r. s = rstrip s @ r \<and> list_all isspace r"
proof -
  have "rev s = takeWhile isspace (rev s) @ dropWhile isspace (rev s)" by simp
  then have "s = rev (dropWhile isspace (rev s)) @ rev (takeWhile isspace (rev s))"
    by (metis rev_append rev_rev_ident)
  moreover have "list_all isspace (rev (takeWhile isspace (rev s)))"
    by (auto simp: list_all_iff dest: set_takeWhileD)
  ultimately show ?thesis unfolding rstrip_def by blast
qed

lemma splitlines_Cons_nonbreak:
  "\<not> is_linebreak c \<Longrightarrow> splitlines (c # s) = push c (splitlines s)"
  by (cases s) auto

lemma splitlines_LF: "splitlines (LF # s) = [] # splitlines s"
  by (cases s) simp_all

lemma splitlines_line:
  "\<forall>c \<in> set l. \<not> is_linebreak c \<Longrightarrow> splitlines (l @ LF # rest) = l # splitlines rest"
  by (induction l) (simp_all add: splitlines_LF splitlines_Cons_nonbreak)

lemma splitlines_single:
  "l \<noteq> [] \<Longrightarrow> \<forall>c \<in> set l. \<not> is_linebreak c \<Longrightarrow> splitlines l = [l]"
proof (induction l)
  case Nil
  then show ?case by simp
next
  case (Cons c l)
  then show ?case
    by (cases "l = []") (simp_all add: splitlines_Cons_nonbreak)
qed

lemma set_push: "l \<in> set (push c ls) \<Longrightarrow> d \<in> set l \<Longrightarrow> d = c \<or> (\<exists>m \<in> set ls. d \<in> set m)"
  by (cases ls) auto

lemma splitlines_free:
  "l \<in> set (splitlines s) \<Longrightarrow> d \<in> set l \<Longrightarrow> \<not> is_linebreak d"
proof (induction s arbitrary: l rule: splitlines.induct)
  case 1
  then show ?case by simp
next
  case (2 c)
  then show ?case by (auto split: if_splits)
next
  case (3 c e cs)
  show ?case
  proof (cases "c = CR \<and> e = LF")
    case True
    with 3 show ?thesis by auto
  next
    case nc: False
    show ?thesis
    proof (cases "is_linebreak c")
      case True
      with 3 nc show ?thesis by auto
    next
      case False
      then have "splitlines (c # e # cs) = push c (splitlines (e # cs))"
        by (rule splitlines_Cons_nonbreak)
      with "3.prems" have "l \<in> set (push c (splitlines (e # cs)))" by simp
      from set_push [OF this "3.prems"(2)] have "d = c \<or> (\<exists>m \<in> set (splitlines (e # cs)). d \<in> set m)" .
      with False nc "3.IH"(3) show ?thesis by auto
    qed
  qed
qed

lemma join_nl_Cons: "ls \<noteq> [] \<Longrightarrow> join_nl (l # ls) = l @ LF # join_nl ls"
  by (cases ls) simp_all

lemma join_nl_snoc: "ls \<noteq> [] \<Longrightarrow> join_nl (ls @ [w]) = join_nl ls @ LF # w"
proof (induction ls)
  case Nil
  then show ?case by simp
next
  case (Cons l ls)
  then show ?case
    by (cases "ls = []") (simp_all add: join_nl_Cons)
qed

lemma splitlines_join:
  assumes "\<forall>l \<in> set ls. \<forall>c \<in> set l. \<not> is_linebreak c"
    and "w \<noteq> []" and "\<forall>c \<in> set w. \<not> is_linebreak c"
  shows "splitlines (join_nl (ls @ [w])) = ls @ [w]"
  using assms(1)
proof (induction ls)
  case Nil
  from assms(2,3) show ?case by (simp add: splitlines_single)
next
  case (Cons l ls)
  then show ?case
    by (simp add: join_nl_Cons splitlines_line)
qed

lemma splitlines_first:
  "p \<noteq> [] \<Longrightarrow> \<forall>c \<in> set p. \<not> is_linebreak c \<Longrightarrow> \<exists>l ls. splitlines (p @ r) = (p @ l) # ls"
proof (induction p)
  case Nil
  then show ?case by simp
next
  case (Cons c p)
  show ?case
  proof (cases "p = []")
    case True
    with Cons.prems show ?thesis
      by (cases "splitlines r") (simp_all add: splitlines_Cons_nonbreak)
  next
    case False
    with Cons obtain l ls where "splitlines (p @ r) = (p @ l) # ls" by auto
    with Cons.prems show ?thesis
      by (simp add: splitlines_Cons_nonbreak)
  qed
qed

lemma first_answer_line_Some:
  "first_answer_line ls = Some i \<Longrightarrow> i < length ls \<and> strip (ls ! i) = ''# Answer:''"
proof (induction ls arbitrary: i)
  case Nil
  then show ?case by simp
next
  case (Cons l ls)
  then show ?case
    by (cases "strip l = ''# Answer:''") auto
qed

lemma first_answer_line_take:
  "first_answer_line ls = Some i \<Longrightarrow> first_answer_line (take (Suc i) ls @ xs) = Some i"
proof (induction ls arbitrary: i)
  case Nil
  then show ?case by simp
next
  case (Cons l ls)
  then show ?case
    by (cases "strip l = ''# Answer:''") auto
qed

section \<open>The strict validator on a text with one reasoning block\<close>

lemma hdr_no_LF: "LF \<notin> set ''# Answer:''"
  by (simp add: LF_def)

lemma hdr_free: "\<forall>c \<in> set ''# Answer:''. \<not> is_linebreak c"
  by (simp add: is_linebreak_def)

lemma hdr_strip: "strip ''# Answer:'' = ''# Answer:''"
  using is_header_header by (simp only: is_header_def)

lemma hdr_last: "\<not> isspace (last ''# Answer:'')"
  by (simp add: isspace_def)

lemma rstrip_eq_Nil: "(rstrip s = []) = list_all isspace s"
  by (auto simp: rstrip_def list_all_iff dropWhile_eq_Nil_conv)

lemma rstrip_keep:
  assumes "xs \<noteq> []" and "\<not> isspace (last xs)"
  shows "rstrip (xs @ ys) = xs @ rstrip ys"
proof (cases "list_all isspace ys")
  case True
  with assms show ?thesis
    by (simp add: rstrip_append_space rstrip_noop rstrip_all_space)
next
  case False
  then show ?thesis by (rule rstrip_append_nonspace)
qed

lemma lstrip_all_space: "list_all isspace s \<Longrightarrow> lstrip s = []"
  by (simp add: lstrip_def list_all_iff)

lemma strip_all_space: "list_all isspace s \<Longrightarrow> strip s = []"
  by (simp add: strip_def lstrip_all_space rstrip_def)

lemma strip_rstrip: "strip (rstrip v) = strip v"
proof -
  from rstrip_prefix [of v] obtain r where v: "v = rstrip v @ r" and r: "list_all isspace r"
    by blast
  show ?thesis
  proof (cases "rstrip v = []")
    case True
    then have "list_all isspace v" by (simp add: rstrip_eq_Nil)
    then have "strip v = []" by (rule strip_all_space)
    moreover have "strip [] = []" by (simp add: strip_def lstrip_def rstrip_def)
    ultimately show ?thesis using True by simp
  next
    case False
    then have "\<not> isspace (last (rstrip v))" by (rule rstrip_last)
    moreover from False have "last (rstrip v) \<in> set (rstrip v)" by simp
    ultimately have "dropWhile isspace (rstrip v @ r) = dropWhile isspace (rstrip v) @ r"
      by (intro dropWhile_append1)
    then have "lstrip (rstrip v @ r) = lstrip (rstrip v) @ r"
      by (simp add: lstrip_def)
    then have "strip (rstrip v @ r) = rstrip (lstrip (rstrip v) @ r)"
      by (simp add: strip_def)
    also have "\<dots> = rstrip (lstrip (rstrip v))"
      using r by (rule rstrip_append_space)
    finally have "strip (rstrip v @ r) = strip (rstrip v)"
      by (simp add: strip_def)
    with v show ?thesis by simp
  qed
qed

lemma splitlines_eq_Nil: "(splitlines s = []) = (s = [])"
proof (induction s rule: splitlines.induct)
  case 1
  show ?case by simp
next
  case (2 c)
  show ?case by simp
next
  case (3 c d cs)
  then show ?case
    by (cases "splitlines (d # cs)") auto
qed

text \<open>The line after the header, once the text is trimmed on the right.\<close>

lemma verdict_line:
  assumes ns: "\<not> list_all isspace (v @ rest)"
    and lb: "\<forall>c \<in> set v. \<not> is_linebreak c"
    and rest: "rest = [] \<or> hd rest = LF"
  shows "\<exists>l ls. splitlines (rstrip (v @ rest)) = l # ls \<and> strip l = strip v"
proof (cases "list_all isspace rest")
  case True
  then have r: "rstrip (v @ rest) = rstrip v" by (rule rstrip_append_space)
  from ns True have "\<not> list_all isspace v" by (auto simp: list_all_iff)
  then have ne: "rstrip v \<noteq> []" by (simp add: rstrip_eq_Nil)
  from lb set_rstrip [of v] have "\<forall>c \<in> set (rstrip v). \<not> is_linebreak c" by auto
  with ne have "splitlines (rstrip v) = [rstrip v]" by (rule splitlines_single)
  with r show ?thesis by (simp add: strip_rstrip)
next
  case False
  then have "rest \<noteq> []" by auto
  with rest obtain extra where e: "rest = LF # extra" by (cases rest) auto
  with False have ne: "\<not> list_all isspace extra" by simp
  from False have "rstrip (v @ rest) = v @ rstrip rest" by (rule rstrip_append_nonspace)
  also from ne have "rstrip rest = LF # rstrip extra"
    using rstrip_append_nonspace [of extra "[LF]"] by (simp add: e)
  finally have "rstrip (v @ rest) = v @ LF # rstrip extra" .
  with lb show ?thesis by (simp add: splitlines_line)
qed

lemma validate_core:
  assumes "text \<noteq> []" and "strip text = t" and "startswith t ''# Reasoning:''"
    and "find_str t ''# Answer:'' = Some k" and "splitlines (drop k t) = tls"
    and "first_answer_line tls = Some i"
  shows "validate_and_trim_strict text =
     (if i = length tls - 1 then []
      else if strip (tls ! (i + 1)) \<noteq> ''Secure'' \<and> strip (tls ! (i + 1)) \<noteq> ''Insecure'' then []
      else rstrip (take k t) @ [LF] @ join_nl (take (i + 1) tls) @ [LF] @ strip (tls ! (i + 1)))"
  unfolding validate_and_trim_strict_def Let_def
  by (simp only: assms if_False if_True option.case)

lemma validate_first_block:
  assumes sw: "startswith pre ''# Reasoning:''"
    and nf: "find_str pre ''# Answer:'' = None"
    and lb: "\<forall>c \<in> set v. \<not> is_linebreak c"
    and rest: "rest = [] \<or> hd rest = LF"
  shows "validate_and_trim_strict (pre @ LF # ''# Answer:'' @ LF # v @ rest) =
     (if strip v = ''Secure'' \<or> strip v = ''Insecure''
      then rstrip pre @ LF # ''# Answer:'' @ LF # strip v else [])"
proof -
  let ?H = "''# Answer:''"
  let ?text = "pre @ LF # ?H @ LF # v @ rest"
  let ?R = "rstrip (LF # v @ rest)"
  let ?t = "pre @ LF # ?H @ ?R"
  from sw obtain p where pre: "pre = ''# Reasoning:'' @ p"
    unfolding startswith_iff by blast
  have ne: "?text \<noteq> []" by simp
  have "lstrip ?text = ?text"
    by (simp add: pre lstrip_def isspace_def)
  moreover have "rstrip ((pre @ LF # ?H) @ (LF # v @ rest)) = (pre @ LF # ?H) @ ?R"
    by (rule rstrip_keep) (simp_all add: isspace_def)
  ultimately have st: "strip ?text = ?t"
    by (simp add: strip_def)
  have swt: "startswith ?t ''# Reasoning:''"
    unfolding startswith_iff pre by simp
  have "find_str (pre @ LF # (?H @ ?R)) ?H =
      (case find_str pre ?H of
         Some k \<Rightarrow> Some k
       | None \<Rightarrow> map_option (\<lambda>k. length pre + 1 + k) (find_str (?H @ ?R) ?H))"
    using hdr_no_LF by (rule find_str_skip)
  moreover have "find_str (?H @ ?R) ?H = Some 0"
    by (rule find_str_at_start) (rule startswith_append)
  ultimately have fs: "find_str ?t ?H = Some (Suc (length pre))"
    by (simp add: nf)
  have dr: "drop (Suc (length pre)) ?t = ?H @ ?R"
    by simp
  have hdp: "rstrip (take (Suc (length pre)) ?t) = rstrip pre"
    using rstrip_append_space [of "[LF]" pre] by simp
  show ?thesis
  proof (cases "list_all isspace (v @ rest)")
    case True
    then have rn: "?R = []" by (simp add: rstrip_eq_Nil)
    have sH: "splitlines ?H = [?H]"
      using _ hdr_free by (rule splitlines_single) simp
    from dr have "drop (Suc (length pre)) ?t = ?H"
      by (simp only: rn append_Nil2)
    then have sl: "splitlines (drop (Suc (length pre)) ?t) = [?H]"
      by (simp only: sH)
    have fa: "first_answer_line [?H] = Some 0"
      by (simp add: hdr_strip)
    from True have "list_all isspace v" by simp
    then have "strip v = []" by (rule strip_all_space)
    then have nv: "\<not> (strip v = ''Secure'' \<or> strip v = ''Insecure'')" by simp
    have "validate_and_trim_strict ?text = []"
      unfolding validate_core [OF ne st swt fs sl fa] by simp
    with nv show ?thesis by (simp only: if_False)
  next
    case False
    then have R: "?R = LF # rstrip (v @ rest)"
      using rstrip_append_nonspace [of "v @ rest" "[LF]"] by simp
    from verdict_line [OF False lb rest] obtain l ls
      where ls: "splitlines (rstrip (v @ rest)) = l # ls" and l: "strip l = strip v"
      by blast
    have "splitlines (?H @ LF # rstrip (v @ rest)) = ?H # splitlines (rstrip (v @ rest))"
      using hdr_free by (rule splitlines_line)
    moreover from dr have "drop (Suc (length pre)) ?t = ?H @ LF # rstrip (v @ rest)"
      by (simp only: R)
    ultimately have sl: "splitlines (drop (Suc (length pre)) ?t) = ?H # l # ls"
      by (simp only: ls)
    have fa: "first_answer_line (?H # l # ls) = Some 0"
      by (simp add: hdr_strip)
    have "validate_and_trim_strict ?text =
        (if strip v \<noteq> ''Secure'' \<and> strip v \<noteq> ''Insecure'' then []
         else rstrip pre @ [LF] @ ?H @ [LF] @ strip v)"
      unfolding validate_core [OF ne st swt fs sl fa] hdp by (simp add: l)
    then show ?thesis by auto
  qed
qed

lemma rsn_last: "\<not> isspace (last ''# Reasoning:'')"
  by (simp add: isspace_def)

lemma rsn_hd: "\<not> isspace (hd ''# Reasoning:'')"
  by (simp add: isspace_def)

lemma strip_rsn:
  assumes "startswith s ''# Reasoning:''"
  shows "startswith (strip s) ''# Reasoning:''"
proof -
  from assms obtain r where s: "s = ''# Reasoning:'' @ r"
    unfolding startswith_iff by blast
  have "lstrip s = s"
    by (simp add: s lstrip_def isspace_def)
  moreover have "rstrip (''# Reasoning:'' @ r) = ''# Reasoning:'' @ rstrip r"
    using _ rsn_last by (rule rstrip_keep) simp
  ultimately have "strip s = ''# Reasoning:'' @ rstrip r"
    by (simp only: strip_def s)
  then show ?thesis
    unfolding startswith_iff by blast
qed

lemma hdr_after_rsn:
  assumes "startswith t ''# Reasoning:''" and "startswith (drop k t) ''# Answer:''"
  shows "12 \<le> k"
proof (rule ccontr)
  assume "\<not> 12 \<le> k"
  then have k: "k < 12" by simp
  from assms(1) obtain r where t: "t = ''# Reasoning:'' @ r"
    unfolding startswith_iff by blast
  from assms(2) obtain q where q: "drop k t = ''# Answer:'' @ q"
    unfolding startswith_iff by blast
  from q have "length (drop k t) = 9 + length q"
    by simp
  then have l: "k + 2 < length t"
    by simp
  from q have "drop k t ! 0 = CHR ''#''" "drop k t ! 2 = CHR ''A''"
    by simp_all
  with l have c: "t ! k = CHR ''#''" "t ! (k + 2) = CHR ''A''"
    by simp_all
  have r0: "(''# Reasoning:'' @ r) ! 0 = CHR ''#''" "(''# Reasoning:'' @ r) ! 1 = CHR '' ''"
    "(''# Reasoning:'' @ r) ! 2 = CHR ''R''" "(''# Reasoning:'' @ r) ! 3 = CHR ''e''"
    "(''# Reasoning:'' @ r) ! 4 = CHR ''a''" "(''# Reasoning:'' @ r) ! 5 = CHR ''s''"
    "(''# Reasoning:'' @ r) ! 6 = CHR ''o''" "(''# Reasoning:'' @ r) ! 7 = CHR ''n''"
    "(''# Reasoning:'' @ r) ! 8 = CHR ''i''" "(''# Reasoning:'' @ r) ! 9 = CHR ''n''"
    "(''# Reasoning:'' @ r) ! 10 = CHR ''g''" "(''# Reasoning:'' @ r) ! 11 = CHR '':''"
    by simp_all
  from k consider "k = 0" | "k = 1" | "k = 2" | "k = 3" | "k = 4" | "k = 5" | "k = 6" | "k = 7"
    | "k = 8" | "k = 9" | "k = 10" | "k = 11"
    by atomize_elim presburger
  then show False
  proof cases
    case 1
    with c(2) r0(3) show False by (simp add: t)
  next
    case 2
    with c(1) r0(2) show False by (simp add: t)
  next
    case 3
    with c(1) r0(3) show False by (simp add: t)
  next
    case 4
    with c(1) r0(4) show False by (simp add: t)
  next
    case 5
    with c(1) r0(5) show False by (simp add: t)
  next
    case 6
    with c(1) r0(6) show False by (simp add: t)
  next
    case 7
    with c(1) r0(7) show False by (simp add: t)
  next
    case 8
    with c(1) r0(8) show False by (simp add: t)
  next
    case 9
    with c(1) r0(9) show False by (simp add: t)
  next
    case 10
    with c(1) r0(10) show False by (simp add: t)
  next
    case 11
    with c(1) r0(11) show False by (simp add: t)
  next
    case 12
    with c(1) r0(12) show False by (simp add: t)
  qed
qed

section \<open>The strict validator: first header line, lines after the verdict\<close>









section \<open>Coercion: the canonical document\<close>

lemma coerce_to_template_eq:
  "coerce_to_template raw =
     ''# Reasoning:'' @ LF # join_nl (numbered 0 (bullets_of raw))
       @ LF # LF # ''# Answer:'' @ LF # ''Insecure''"
proof (cases "coerce_lines raw = []")
  case True
  have "take 5 [''No explicit reasoning found.''] = [''No explicit reasoning found.'']"
    by (rule take_all) simp
  with True show ?thesis
    by (simp add: coerce_to_template_def Let_def bullets_of_def)
next
  case False
  then show ?thesis
    by (simp add: coerce_to_template_def Let_def bullets_of_def)
qed

lemma length_bullets_of: "1 \<le> length (bullets_of raw) \<and> length (bullets_of raw) \<le> 5"
proof (cases "coerce_lines raw = []")
  case True
  then show ?thesis by (simp add: bullets_of_def)
next
  case False
  then have "0 < length (coerce_lines raw)" by simp
  then show ?thesis
    using False by (simp add: bullets_of_def Suc_le_eq)
qed

lemma length_numbered: "length (numbered i bs) = length bs"
  by (induction bs arbitrary: i) simp_all

lemma nth_numbered:
  "j < length bs \<Longrightarrow> numbered i bs ! j = str_nat (i + j + 1) @ ''. '' @ bs ! j"
proof (induction bs arbitrary: i j)
  case Nil
  then show ?case by simp
next
  case (Cons b bs)
  show ?case
  proof (cases j)
    case 0
    then show ?thesis by simp
  next
    case (Suc j')
    with Cons.prems have "j' < length bs" by simp
    from Cons.IH [OF this, of "i + 1"] Suc show ?thesis by simp
  qed
qed

lemma containsI: "j \<le> length s \<Longrightarrow> startswith (drop j s) sub \<Longrightarrow> contains s sub"
  unfolding contains_def using find_str_None by blast

lemma contains_suffix: "contains (xs @ sub) sub"
  by (rule containsI [of "length xs"]) (simp_all add: startswith_def)

lemma answer_lines_two:
  assumes "LF \<notin> set l" and "LF \<notin> set v"
  shows "answer_lines (pre @ LF # l @ LF # v)
    = answer_lines pre @ [filter (\<lambda>c. c \<noteq> CR) l, filter (\<lambda>c. c \<noteq> CR) v]"
proof -
  have "split_nl (pre @ LF # l @ LF # v) = split_nl pre @ split_nl l @ split_nl v"
    by (simp only: split_nl_append)
  also have "\<dots> = split_nl pre @ [l, v]"
    by (simp only: split_nl_single [OF assms(1)] split_nl_single [OF assms(2)] append.simps)
  finally show ?thesis
    by (simp add: answer_lines_def)
qed

lemma parse_final_answer_last:
  assumes l: "LF \<notin> set l" and v: "LF \<notin> set v"
    and hl: "is_header (filter (\<lambda>c. c \<noteq> CR) l)"
    and hv: "\<not> is_header (filter (\<lambda>c. c \<noteq> CR) v)"
  shows "parse_final_answer (JStr (pre @ LF # l @ LF # v)) = strip (filter (\<lambda>c. c \<noteq> CR) v)"
proof -
  let ?l = "filter (\<lambda>c. c \<noteq> CR) l"
  let ?v = "filter (\<lambda>c. c \<noteq> CR) v"
  let ?ls = "answer_lines pre"
  have al: "answer_lines (pre @ LF # l @ LF # v) = (?ls @ [?l]) @ [?v]"
    using answer_lines_two [OF l v] by simp
  have "last_answer_idx ((?ls @ [?l]) @ [?v]) 0 (- 1) = int (length ?ls)"
    using hl hv by (simp only: last_answer_idx_snoc) simp
  then show ?thesis
    unfolding parse_final_answer.simps al Let_def
    by (simp add: nat_add_distrib nth_append)
qed

lemma parse_coerce: "parse_final_answer (JStr (coerce_to_template raw)) = ''Insecure''"
proof -
  let ?pre = "''# Reasoning:'' @ LF # join_nl (numbered 0 (bullets_of raw)) @ [LF]"
  have e: "coerce_to_template raw = ?pre @ LF # ''# Answer:'' @ LF # ''Insecure''"
    by (simp add: coerce_to_template_eq)
  have f: "LF \<notin> set ''# Answer:''" "LF \<notin> set ''Insecure''"
    "is_header (filter (\<lambda>c. c \<noteq> CR) ''# Answer:'')"
    "\<not> is_header (filter (\<lambda>c. c \<noteq> CR) ''Insecure'')"
    "strip (filter (\<lambda>c. c \<noteq> CR) ''Insecure'') = ''Insecure''"
    by code_simp+
  show ?thesis
    unfolding e using parse_final_answer_last [OF f(1) f(2) f(3) f(4), of ?pre] f(5)
    by (rule trans)
qed

lemma marker_coerce: "contains (coerce_to_template raw) insecure_marker"
proof -
  have "coerce_to_template raw =
      (''# Reasoning:'' @ LF # join_nl (numbered 0 (bullets_of raw)) @ [LF, LF]) @ insecure_marker"
    by (simp add: coerce_to_template_eq insecure_marker_def)
  then show ?thesis
    by (simp only: contains_suffix)
qed

text \<open>
  C5 (as amended). The coerced document is the reasoning header, the numbered bullets, a
  blank line, the answer header and \<open>Insecure\<close>; verdict extraction reads \<open>Insecure\<close> from
  it and the insecure marker occurs in it. The bullets are the first five lines of the input
  that are not blank, trimmed, numbered from 1, and when the input has no such line, the single
  bullet \<open>No explicit reasoning found.\<close>
\<close>

theorem coerce_document:
  "coerce_to_template raw =
     ''# Reasoning:'' @ LF # join_nl (numbered 0 (bullets_of raw))
       @ LF # LF # ''# Answer:'' @ LF # ''Insecure''
   \<and> bullets_of raw =
       (if coerce_lines raw = [] then [''No explicit reasoning found.'']
        else take 5 (coerce_lines raw))
   \<and> 1 \<le> length (bullets_of raw) \<and> length (bullets_of raw) \<le> 5
   \<and> length (numbered 0 (bullets_of raw)) = length (bullets_of raw)
   \<and> (\<forall>i < length (bullets_of raw).
        numbered 0 (bullets_of raw) ! i = str_nat (i + 1) @ ''. '' @ bullets_of raw ! i)
   \<and> parse_final_answer (JStr (coerce_to_template raw)) = ''Insecure''
   \<and> contains (coerce_to_template raw) insecure_marker"
proof -
  note c1 = coerce_to_template_eq [of raw]
  note c2 = bullets_of_def [of raw]
  note c3 = length_bullets_of [of raw, THEN conjunct1]
  note c4 = length_bullets_of [of raw, THEN conjunct2]
  note c5 = length_numbered [of 0 "bullets_of raw"]
  have c6: "\<forall>i < length (bullets_of raw).
        numbered 0 (bullets_of raw) ! i = str_nat (i + 1) @ ''. '' @ bullets_of raw ! i"
    using nth_numbered [of _ "bullets_of raw" 0] by simp
  note c7 = parse_coerce [of raw]
  note c8 = marker_coerce [of raw]
  show ?thesis
    by (rule conjI [OF c1 conjI [OF c2 conjI [OF c3 conjI [OF c4 conjI [OF c5
          conjI [OF c6 conjI [OF c7 c8]]]]]]])
qed

theorem coerce_document_witness:
  "coerce_to_template ''garbage'' = ''# Reasoning:\<newline>1. garbage\<newline>\<newline># Answer:\<newline>Insecure''
   \<and> parse_final_answer (JStr (coerce_to_template ''garbage'')) = ''Insecure''
   \<and> numbered 0 (bullets_of ''garbage'') ! 0 = ''1. garbage''"
proof -
  note th = coerce_document [of "''garbage''"]
  have e: "''# Reasoning:'' @ LF # join_nl (numbered 0 (bullets_of ''garbage''))
       @ LF # LF # ''# Answer:'' @ LF # ''Insecure''
      = ''# Reasoning:\<newline>1. garbage\<newline>\<newline># Answer:\<newline>Insecure''"
    by code_simp
  have l: "0 < length (bullets_of ''garbage'')"
    by code_simp
  have b: "str_nat (0 + 1) @ ''. '' @ bullets_of ''garbage'' ! 0 = ''1. garbage''"
    by code_simp
  have w1: "coerce_to_template ''garbage''
      = ''# Reasoning:\<newline>1. garbage\<newline>\<newline># Answer:\<newline>Insecure''"
    using th [THEN conjunct1] e by (rule trans)
  note c6 = th [THEN conjunct2, THEN conjunct2, THEN conjunct2, THEN conjunct2, THEN conjunct2,
      THEN conjunct1, rule_format, OF l]
  have w3: "numbered 0 (bullets_of ''garbage'') ! 0 = ''1. garbage''"
    using c6 b by (rule trans)
  note w2 = th [THEN conjunct2, THEN conjunct2, THEN conjunct2, THEN conjunct2, THEN conjunct2,
      THEN conjunct2, THEN conjunct1]
  show ?thesis
    by (rule conjI [OF w1 conjI [OF w2 w3]])
qed

text \<open>
  The empty input has no line at all, and the reasoning section of its document has one
  bullet.
\<close>

theorem coerce_placeholder_counterexample:
  "coerce_lines [] = []
   \<and> coerce_to_template []
     = ''# Reasoning:\<newline>1. No explicit reasoning found.\<newline>\<newline># Answer:\<newline>Insecure''"
  by code_simp

section \<open>The recorded answer: validation again\<close>

lemma validate_normal_form:
  assumes "validate_and_trim_strict text \<noteq> []"
  shows "\<exists>t. strip t = t \<and> startswith t ''# Reasoning:'' \<and> t \<noteq> []
    \<and> validate_and_trim_strict text = validate_and_trim_strict t"
proof -
  from assms have ne: "text \<noteq> []"
    unfolding validate_and_trim_strict_def by (cases "text = []") simp_all
  let ?s = "strip text"
  show ?thesis
  proof (cases "startswith ?s ''# Reasoning:''")
    case True
    then have n0: "?s \<noteq> []" by (auto simp: startswith_def)
    have s: "strip ?s = ?s" by simp
    have "validate_and_trim_strict text = validate_and_trim_strict ?s"
      unfolding validate_and_trim_strict_def Let_def
      by (simp only: ne n0 s True if_True if_False)
    with s True n0 show ?thesis by blast
  next
    case False
    show ?thesis
    proof (cases "find_str ?s ''# Reasoning:''")
      case None
      have "validate_and_trim_strict text = []"
        unfolding validate_and_trim_strict_def Let_def
        by (simp only: ne False None if_False option.case)
      with assms show ?thesis by simp
    next
      case (Some idx_r)
      let ?t = "strip (drop idx_r ?s)"
      from find_str_Some_startswith [OF Some]
      have "startswith (drop idx_r ?s) ''# Reasoning:''" by simp
      then have sw: "startswith ?t ''# Reasoning:''" by (rule strip_rsn)
      then have n1: "?t \<noteq> []" by (auto simp: startswith_def)
      have s: "strip ?t = ?t" by simp
      have "validate_and_trim_strict text =
          (case find_str ?t ''# Answer:'' of
             None \<Rightarrow> []
           | Some idx_ans \<Rightarrow>
               (case first_answer_line (splitlines (drop idx_ans ?t)) of
                  None \<Rightarrow> []
                | Some ans_idx \<Rightarrow>
                    if ans_idx = length (splitlines (drop idx_ans ?t)) - 1 then []
                    else if strip (splitlines (drop idx_ans ?t) ! (ans_idx + 1)) \<noteq> ''Secure''
                          \<and> strip (splitlines (drop idx_ans ?t) ! (ans_idx + 1)) \<noteq> ''Insecure''
                         then []
                         else rstrip (take idx_ans ?t) @ [LF]
                              @ join_nl (take (ans_idx + 1) (splitlines (drop idx_ans ?t)))
                              @ [LF] @ strip (splitlines (drop idx_ans ?t) ! (ans_idx + 1))))"
        unfolding validate_and_trim_strict_def Let_def
        by (simp only: ne False Some if_False option.case)
      also have "\<dots> = validate_and_trim_strict ?t"
        unfolding validate_and_trim_strict_def Let_def
        by (simp only: n1 s sw if_True if_False option.case)
      finally show ?thesis using s sw n1 by blast
    qed
  qed
qed

lemma validate_accepts:
  assumes "validate_and_trim_strict text \<noteq> []"
  shows "\<exists>t k i. strip t = t \<and> startswith t ''# Reasoning:'' \<and> t \<noteq> []
    \<and> find_str t ''# Answer:'' = Some k
    \<and> first_answer_line (splitlines (drop k t)) = Some i
    \<and> Suc i < length (splitlines (drop k t))
    \<and> (strip (splitlines (drop k t) ! Suc i) = ''Secure''
        \<or> strip (splitlines (drop k t) ! Suc i) = ''Insecure'')
    \<and> validate_and_trim_strict text =
        rstrip (take k t) @ [LF] @ join_nl (take (Suc i) (splitlines (drop k t)))
          @ [LF] @ strip (splitlines (drop k t) ! Suc i)"
proof -
  from validate_normal_form [OF assms] obtain t
    where st: "strip t = t" and sw: "startswith t ''# Reasoning:''" and ne: "t \<noteq> []"
      and eq: "validate_and_trim_strict text = validate_and_trim_strict t"
    by blast
  from assms eq have nv: "validate_and_trim_strict t \<noteq> []" by simp
  obtain k where k: "find_str t ''# Answer:'' = Some k"
  proof (cases "find_str t ''# Answer:''")
    case None
    have "validate_and_trim_strict t = []"
      unfolding validate_and_trim_strict_def Let_def
      by (simp only: ne st sw None if_True if_False option.case)
    with nv show ?thesis by simp
  next
    case (Some k)
    then show ?thesis by (rule that)
  qed
  let ?tls = "splitlines (drop k t)"
  obtain i where i: "first_answer_line ?tls = Some i"
  proof (cases "first_answer_line ?tls")
    case None
    have "validate_and_trim_strict t = []"
      unfolding validate_and_trim_strict_def Let_def
      by (simp only: ne st sw k None if_True if_False option.case)
    with nv show ?thesis by simp
  next
    case (Some i)
    then show ?thesis by (rule that)
  qed
  note core = validate_core [OF ne st sw k refl i]
  from first_answer_line_Some [OF i] have il: "i < length ?tls" by simp
  have n1: "i \<noteq> length ?tls - 1"
  proof
    assume "i = length ?tls - 1"
    with core have "validate_and_trim_strict t = []" by simp
    with nv show False by simp
  qed
  with il have l: "Suc i < length ?tls" by arith
  have v: "strip (?tls ! Suc i) = ''Secure'' \<or> strip (?tls ! Suc i) = ''Insecure''"
  proof (rule ccontr)
    assume "\<not> (strip (?tls ! Suc i) = ''Secure'' \<or> strip (?tls ! Suc i) = ''Insecure'')"
    then have "strip (?tls ! (i + 1)) \<noteq> ''Secure'' \<and> strip (?tls ! (i + 1)) \<noteq> ''Insecure''"
      by simp
    with core n1 have "validate_and_trim_strict t = []" by simp
    with nv show False by simp
  qed
  then have "\<not> (strip (?tls ! (i + 1)) \<noteq> ''Secure'' \<and> strip (?tls ! (i + 1)) \<noteq> ''Insecure'')"
    by simp
  with core n1 have "validate_and_trim_strict t =
      rstrip (take k t) @ [LF] @ join_nl (take (i + 1) ?tls) @ [LF] @ strip (?tls ! (i + 1))"
    by simp
  then have r: "validate_and_trim_strict text =
        rstrip (take k t) @ [LF] @ join_nl (take (Suc i) ?tls) @ [LF] @ strip (?tls ! Suc i)"
    using eq by simp
  from st sw ne k i l v r show ?thesis by blast
qed

lemma hdr_nonempty: "''# Answer:'' \<noteq> []"
  by simp

lemma join_nl_startswith:
  "startswith l p \<Longrightarrow> startswith (join_nl (l # ls)) p"
proof -
  assume "startswith l p"
  then obtain r where r: "l = p @ r" unfolding startswith_iff by blast
  have "join_nl (l # ls) = p @ (r @ (if ls = [] then [] else LF # join_nl ls))"
    by (cases ls) (simp_all add: r)
  then show ?thesis unfolding startswith_iff by blast
qed

lemma validate_idem:
  assumes "validate_and_trim_strict text \<noteq> []"
  shows "validate_and_trim_strict (validate_and_trim_strict text) = validate_and_trim_strict text"
proof -
  from validate_accepts [OF assms] obtain t k i
    where st: "strip t = t" and sw: "startswith t ''# Reasoning:''" and ne: "t \<noteq> []"
      and k: "find_str t ''# Answer:'' = Some k"
      and i: "first_answer_line (splitlines (drop k t)) = Some i"
      and l: "Suc i < length (splitlines (drop k t))"
      and v: "strip (splitlines (drop k t) ! Suc i) = ''Secure''
        \<or> strip (splitlines (drop k t) ! Suc i) = ''Insecure''"
      and r: "validate_and_trim_strict text =
        rstrip (take k t) @ [LF] @ join_nl (take (Suc i) (splitlines (drop k t)))
          @ [LF] @ strip (splitlines (drop k t) ! Suc i)"
    by blast
  define tls where "tls = splitlines (drop k t)"
  define w where "w = strip (tls ! Suc i)"
  define hd0 where "hd0 = rstrip (take k t)"
  define ls where "ls = take (Suc i) tls"
  define res where "res = hd0 @ [LF] @ join_nl ls @ [LF] @ w"
  note i' = i [folded tls_def] and l' = l [folded tls_def]
  have res: "validate_and_trim_strict text = res"
    unfolding res_def hd0_def ls_def w_def tls_def by (rule r)
  \<comment> \<open>the verdict word\<close>
  from v have wv: "w = ''Secure'' \<or> w = ''Insecure''"
    unfolding w_def tls_def .
  then have wne: "w \<noteq> []" by auto
  have wstrip: "strip w = w" unfolding w_def by simp
  from wne have wlast: "\<not> isspace (last w)"
    unfolding w_def by (rule strip_ends(2))
  from l' have "tls ! Suc i \<in> set tls" by simp
  then have "\<forall>c \<in> set (tls ! Suc i). \<not> is_linebreak c"
    unfolding tls_def using splitlines_free by blast
  with set_strip [of "tls ! Suc i"] have wfree: "\<forall>c \<in> set w. \<not> is_linebreak c"
    unfolding w_def by blast
  \<comment> \<open>the head\<close>
  from find_str_Some_startswith [OF k] have swk: "startswith (drop k t) ''# Answer:''"
    by simp
  from hdr_after_rsn [OF sw swk] have k12: "12 \<le> k" .
  from sw obtain p where t: "t = ''# Reasoning:'' @ p"
    unfolding startswith_iff by blast
  have lr: "length ''# Reasoning:'' = 12" by simp
  have "take k ''# Reasoning:'' = ''# Reasoning:''"
    by (rule take_all) (simp only: lr k12)
  moreover have "take k (''# Reasoning:'' @ p)
      = take k ''# Reasoning:'' @ take (k - length ''# Reasoning:'') p"
    by (rule take_append)
  ultimately have "take k (''# Reasoning:'' @ p) = ''# Reasoning:'' @ take (k - 12) p"
    by (simp only: lr)
  then have "take k t = ''# Reasoning:'' @ take (k - 12) p"
    by (simp only: t)
  moreover have "rstrip (''# Reasoning:'' @ take (k - 12) p)
      = ''# Reasoning:'' @ rstrip (take (k - 12) p)"
    using _ rsn_last by (rule rstrip_keep) simp
  ultimately have hd0: "hd0 = ''# Reasoning:'' @ rstrip (take (k - 12) p)"
    by (simp only: hd0_def)
  then have swh: "startswith hd0 ''# Reasoning:''"
    unfolding startswith_iff by blast
  from hd0 have hne: "hd0 \<noteq> []" by simp
  from hd0 have hhd: "\<not> isspace (hd hd0)" by (simp add: isspace_def)
  \<comment> \<open>the result is trimmed and starts with the header\<close>
  have rne: "res \<noteq> []" unfolding res_def using hne by simp
  have "hd res = hd hd0" unfolding res_def using hne by simp
  moreover have "last res = last w" unfolding res_def using wne by simp
  ultimately have sres: "strip res = res"
    using rne hhd wlast by (simp add: strip_noop)
  from swh obtain q where "hd0 = ''# Reasoning:'' @ q"
    unfolding startswith_iff by blast
  then have "res = ''# Reasoning:'' @ (q @ [LF] @ join_nl ls @ [LF] @ w)"
    unfolding res_def by simp
  then have swr: "startswith res ''# Reasoning:''"
    unfolding startswith_iff by blast
  \<comment> \<open>the first answer header of the result\<close>
  from find_str_take_None [OF k hdr_nonempty]
  have "find_str (take k t) ''# Answer:'' = None" .
  moreover from rstrip_prefix [of "take k t"] obtain sp where "take k t = hd0 @ sp"
    unfolding hd0_def by blast
  ultimately have "find_str (hd0 @ sp) ''# Answer:'' = None" by simp
  then have fh: "find_str hd0 ''# Answer:'' = None" by (rule find_str_None_prefix)
  from swk obtain q' where dk: "drop k t = ''# Answer:'' @ q'"
    unfolding startswith_iff by blast
  from splitlines_first [OF hdr_nonempty hdr_free, of q'] obtain l0 ls0
    where "splitlines (''# Answer:'' @ q') = (''# Answer:'' @ l0) # ls0" by blast
  then have tls: "tls = (''# Answer:'' @ l0) # ls0"
    unfolding tls_def dk .
  then have lsc: "ls = (''# Answer:'' @ l0) # take i ls0"
    unfolding ls_def by simp
  have "startswith (''# Answer:'' @ l0) ''# Answer:''" by (rule startswith_append)
  then have "startswith (join_nl ls) ''# Answer:''"
    unfolding lsc by (rule join_nl_startswith)
  then obtain j' where "join_nl ls = ''# Answer:'' @ j'"
    unfolding startswith_iff by blast
  then have "join_nl ls @ [LF] @ w = ''# Answer:'' @ (j' @ [LF] @ w)" by simp
  then have "startswith (join_nl ls @ [LF] @ w) ''# Answer:''"
    unfolding startswith_iff by blast
  then have "find_str (join_nl ls @ [LF] @ w) ''# Answer:'' = Some 0"
    by (rule find_str_at_start)
  moreover have "find_str (hd0 @ LF # (join_nl ls @ [LF] @ w)) ''# Answer:'' =
      (case find_str hd0 ''# Answer:'' of
         Some k \<Rightarrow> Some k
       | None \<Rightarrow> map_option (\<lambda>k. length hd0 + 1 + k)
           (find_str (join_nl ls @ [LF] @ w) ''# Answer:''))"
    using hdr_no_LF by (rule find_str_skip)
  ultimately have "find_str (hd0 @ LF # (join_nl ls @ [LF] @ w)) ''# Answer:''
      = Some (Suc (length hd0))"
    by (simp add: fh)
  moreover have rform: "res = hd0 @ LF # (join_nl ls @ [LF] @ w)"
    unfolding res_def by simp
  ultimately have fr: "find_str res ''# Answer:'' = Some (Suc (length hd0))"
    by simp
  \<comment> \<open>the head and the tail lines of the result\<close>
  have "take (Suc (length hd0)) res = hd0 @ [LF]"
    unfolding rform by simp
  moreover have "rstrip (hd0 @ [LF]) = rstrip hd0"
    by (rule rstrip_append_space) simp
  moreover have "rstrip hd0 = hd0" unfolding hd0_def by simp
  ultimately have hr: "rstrip (take (Suc (length hd0)) res) = hd0" by simp
  have lne: "ls \<noteq> []" unfolding lsc by simp
  have "drop (Suc (length hd0)) res = join_nl ls @ LF # w"
    unfolding rform by simp
  also have "\<dots> = join_nl (ls @ [w])"
    using lne by (simp add: join_nl_snoc)
  finally have dr: "drop (Suc (length hd0)) res = join_nl (ls @ [w])" .
  have "set ls \<subseteq> set tls"
    unfolding ls_def by (rule set_take_subset)
  then have "\<forall>l \<in> set ls. \<forall>c \<in> set l. \<not> is_linebreak c"
    unfolding tls_def using splitlines_free by blast
  then have "splitlines (join_nl (ls @ [w])) = ls @ [w]"
    using wne wfree by (rule splitlines_join)
  then have sl: "splitlines (drop (Suc (length hd0)) res) = ls @ [w]"
    by (simp only: dr)
  have fa: "first_answer_line (ls @ [w]) = Some i"
    unfolding ls_def using i' by (rule first_answer_line_take)
  have len: "length ls = Suc i"
    unfolding ls_def using l' by simp
  note core = validate_core [OF rne sres swr fr sl fa]
  have e1: "i \<noteq> length (ls @ [w]) - 1" using len by simp
  have e2: "(ls @ [w]) ! (i + 1) = w" using len by (simp add: nth_append)
  have e3: "take (i + 1) (ls @ [w]) = ls" using len by simp
  from wv have e4: "\<not> (w \<noteq> ''Secure'' \<and> w \<noteq> ''Insecure'')" by blast
  have "validate_and_trim_strict res = hd0 @ [LF] @ join_nl ls @ [LF] @ w"
    unfolding core e2 e3 wstrip hr using e1 e4 by simp
  then have "validate_and_trim_strict res = res"
    unfolding res_def .
  then show ?thesis
    unfolding res .
qed

lemma validate_shape:
  assumes "validate_and_trim_strict text \<noteq> []"
  shows "\<exists>body l w. validate_and_trim_strict text = body @ LF # l @ LF # w
    \<and> (w = ''Secure'' \<or> w = ''Insecure'') \<and> strip l = ''# Answer:''
    \<and> (\<forall>c \<in> set l. \<not> is_linebreak c)"
proof -
  from validate_accepts [OF assms] obtain t k i
    where i: "first_answer_line (splitlines (drop k t)) = Some i"
      and l: "Suc i < length (splitlines (drop k t))"
      and v: "strip (splitlines (drop k t) ! Suc i) = ''Secure''
        \<or> strip (splitlines (drop k t) ! Suc i) = ''Insecure''"
      and r: "validate_and_trim_strict text =
        rstrip (take k t) @ [LF] @ join_nl (take (Suc i) (splitlines (drop k t)))
          @ [LF] @ strip (splitlines (drop k t) ! Suc i)"
    by blast
  define tls where "tls = splitlines (drop k t)"
  define w where "w = strip (tls ! Suc i)"
  note i' = i [folded tls_def] and l' = l [folded tls_def]
  from first_answer_line_Some [OF i'] have il: "i < length tls"
    and sl: "strip (tls ! i) = ''# Answer:''" by simp_all
  from il have "tls ! i \<in> set tls" by simp
  then have fl: "\<forall>c \<in> set (tls ! i). \<not> is_linebreak c"
    unfolding tls_def using splitlines_free by blast
  from il have tk: "take (Suc i) tls = take i tls @ [tls ! i]"
    by (rule take_Suc_conv_app_nth)
  have "\<exists>body. rstrip (take k t) @ [LF] @ join_nl (take (Suc i) tls) = body @ LF # tls ! i"
  proof (cases "take i tls = []")
    case True
    have "join_nl (take (Suc i) tls) = tls ! i"
      unfolding tk True by simp
    then have "rstrip (take k t) @ [LF] @ join_nl (take (Suc i) tls)
        = rstrip (take k t) @ LF # tls ! i"
      by simp
    then show ?thesis by blast
  next
    case False
    then have "join_nl (take (Suc i) tls) = join_nl (take i tls) @ LF # tls ! i"
      unfolding tk by (rule join_nl_snoc)
    then have "rstrip (take k t) @ [LF] @ join_nl (take (Suc i) tls)
        = (rstrip (take k t) @ [LF] @ join_nl (take i tls)) @ LF # tls ! i"
      by simp
    then show ?thesis by blast
  qed
  then obtain body
    where "rstrip (take k t) @ [LF] @ join_nl (take (Suc i) tls) = body @ LF # tls ! i"
    by blast
  then have "validate_and_trim_strict text = body @ LF # tls ! i @ LF # w"
    unfolding r w_def tls_def by simp
  moreover from v have "w = ''Secure'' \<or> w = ''Insecure''"
    unfolding w_def tls_def .
  ultimately show ?thesis using sl fl by blast
qed

lemma filter_CR_free: "\<forall>c \<in> set l. \<not> is_linebreak c \<Longrightarrow> filter (\<lambda>c. c \<noteq> CR) l = l"
proof -
  assume "\<forall>c \<in> set l. \<not> is_linebreak c"
  then have "\<forall>c \<in> set l. c \<noteq> CR" using is_linebreak_CR by blast
  then show ?thesis by simp
qed

lemma parse_validate:
  assumes "validate_and_trim_strict text \<noteq> []"
  shows "parse_final_answer (JStr (validate_and_trim_strict text)) = ''Secure''
    \<or> parse_final_answer (JStr (validate_and_trim_strict text)) = ''Insecure''"
proof -
  from validate_shape [OF assms] obtain body l w
    where e: "validate_and_trim_strict text = body @ LF # l @ LF # w"
      and w: "w = ''Secure'' \<or> w = ''Insecure''"
      and sl: "strip l = ''# Answer:''" and fl: "\<forall>c \<in> set l. \<not> is_linebreak c"
    by blast
  from fl have l1: "LF \<notin> set l" using is_linebreak_LF by blast
  from fl have l2: "filter (\<lambda>c. c \<noteq> CR) l = l" by (rule filter_CR_free)
  from sl l2 have hl: "is_header (filter (\<lambda>c. c \<noteq> CR) l)"
    by (simp add: is_header_def)
  have tf: "LF \<notin> set ''Secure''" "LF \<notin> set ''Insecure''"
    "\<not> is_header (filter (\<lambda>c. c \<noteq> CR) ''Secure'')"
    "\<not> is_header (filter (\<lambda>c. c \<noteq> CR) ''Insecure'')"
    "strip (filter (\<lambda>c. c \<noteq> CR) ''Secure'') = ''Secure''"
    "strip (filter (\<lambda>c. c \<noteq> CR) ''Insecure'') = ''Insecure''"
    by code_simp+
  from w show ?thesis
  proof
    assume ws: "w = ''Secure''"
    have "parse_final_answer (JStr (body @ LF # l @ LF # ''Secure''))
        = strip (filter (\<lambda>c. c \<noteq> CR) ''Secure'')"
      using l1 tf(1) hl tf(3) by (rule parse_final_answer_last)
    then have "parse_final_answer (JStr (validate_and_trim_strict text)) = ''Secure''"
      unfolding e ws tf(5) .
    then show ?thesis by (rule disjI1)
  next
    assume wi: "w = ''Insecure''"
    have "parse_final_answer (JStr (body @ LF # l @ LF # ''Insecure''))
        = strip (filter (\<lambda>c. c \<noteq> CR) ''Insecure'')"
      using l1 tf(2) hl tf(4) by (rule parse_final_answer_last)
    then have "parse_final_answer (JStr (validate_and_trim_strict text)) = ''Insecure''"
      unfolding e wi tf(6) .
    then show ?thesis by (rule disjI2)
  qed
qed

lemma validate_final_line:
  assumes "validate_and_trim_strict text \<noteq> []"
  shows "\<exists>body. validate_and_trim_strict text = body @ LF # ''Secure''
    \<or> validate_and_trim_strict text = body @ LF # ''Insecure''"
proof -
  from validate_shape [OF assms] obtain body l w
    where e: "validate_and_trim_strict text = body @ LF # l @ LF # w"
      and w: "w = ''Secure'' \<or> w = ''Insecure''"
    by blast
  from e have "validate_and_trim_strict text = (body @ LF # l) @ LF # w" by simp
  with w show ?thesis by blast
qed

lemma find_str_join:
  assumes "LF \<notin> set sub" and "sub \<noteq> []"
  shows "\<forall>l \<in> set ls. find_str l sub = None \<Longrightarrow> find_str (join_nl ls) sub = None"
proof (induction ls)
  case Nil
  from assms(2) show ?case by simp
next
  case (Cons l ls)
  show ?case
  proof (cases "ls = []")
    case True
    with Cons.prems show ?thesis by simp
  next
    case False
    from Cons have "find_str l sub = None" "find_str (join_nl ls) sub = None" by simp_all
    then show ?thesis
      unfolding join_nl_Cons [OF False] find_str_skip [OF assms(1)] by simp
  qed
qed

lemma find_str_after_prefix:
  assumes "sub \<noteq> []" and "hd sub \<notin> set n" and "find_str b sub = None"
  shows "find_str (n @ b) sub = None"
  using assms(2)
proof (induction n)
  case Nil
  from assms(3) show ?case by simp
next
  case (Cons c n)
  from Cons.prems have "c \<noteq> hd sub" by auto
  with assms(1) have "\<not> startswith (c # n @ b) sub"
    by (cases sub) (auto simp: startswith_def)
  with Cons show ?case by simp
qed

lemma str_nat_digits: "c \<in> set (str_nat n) \<Longrightarrow> \<exists>d::nat. d < 10 \<and> c = char_of (48 + d)"
proof (induction n rule: str_nat.induct)
  case (1 n)
  show ?case
  proof (cases "n < 10")
    case True
    with "1.prems" have "c = char_of (48 + n)"
      by (simp add: str_nat.simps [of n])
    with True show ?thesis by blast
  next
    case False
    with "1.prems" have "c \<in> set (str_nat (n div 10)) \<or> c = char_of (48 + n mod 10)"
      by (auto simp add: str_nat.simps [of n])
    then show ?thesis
    proof
      assume "c \<in> set (str_nat (n div 10))"
      with False "1.IH" show ?thesis by blast
    next
      assume "c = char_of (48 + n mod 10)"
      moreover have "n mod 10 < 10" by simp
      ultimately show ?thesis by blast
    qed
  qed
qed

lemma hash_not_digit: "CHR ''#'' \<notin> set (str_nat n @ ''. '')"
proof
  assume "CHR ''#'' \<in> set (str_nat n @ ''. '')"
  then have "CHR ''#'' \<in> set (str_nat n)" by simp
  from str_nat_digits [OF this] obtain d :: nat where d: "d < 10" "CHR ''#'' = char_of (48 + d)"
    by blast
  from d(2) have "(of_char CHR ''#'' :: nat) = of_char (char_of (48 + d))" by simp
  with d(1) show False by simp
qed

lemma find_str_numbered:
  assumes "\<forall>b \<in> set bs. find_str b ''# Answer:'' = None"
  shows "\<forall>l \<in> set (numbered i bs). find_str l ''# Answer:'' = None"
  using assms
proof (induction bs arbitrary: i)
  case Nil
  show ?case by simp
next
  case (Cons b bs)
  from Cons.prems have b: "find_str b ''# Answer:'' = None" by simp
  have "hd ''# Answer:'' \<notin> set (str_nat (i + 1) @ ''. '')"
    using hash_not_digit [of "i + 1"] by simp
  with hdr_nonempty have "find_str ((str_nat (i + 1) @ ''. '') @ b) ''# Answer:'' = None"
    using b by (rule find_str_after_prefix)
  then have "find_str (str_nat (i + 1) @ ''. '' @ b) ''# Answer:'' = None" by simp
  moreover from Cons have "\<forall>l \<in> set (numbered (i + 1) bs). find_str l ''# Answer:'' = None"
    by simp
  ultimately show ?case by simp
qed

lemma coerce_lines_trimmed: "b \<in> set (coerce_lines raw) \<Longrightarrow> b \<noteq> [] \<and> \<not> isspace (last b)"
proof -
  assume "b \<in> set (coerce_lines raw)"
  then obtain l where "b = strip l" "strip l \<noteq> []"
    by (auto simp: coerce_lines_def)
  with strip_ends(2) [of l] show ?thesis by simp
qed

lemma bullets_of_trimmed: "b \<in> set (bullets_of raw) \<Longrightarrow> b \<noteq> [] \<and> \<not> isspace (last b)"
proof (cases "coerce_lines raw = []")
  case True
  assume "b \<in> set (bullets_of raw)"
  with True have "b = ''No explicit reasoning found.''" by (simp add: bullets_of_def)
  then show ?thesis by (simp add: isspace_def)
next
  case False
  assume "b \<in> set (bullets_of raw)"
  with False have "b \<in> set (take 5 (coerce_lines raw))" by (simp add: bullets_of_def)
  then have "b \<in> set (coerce_lines raw)" by (rule in_set_takeD)
  then show ?thesis by (rule coerce_lines_trimmed)
qed

lemma last_join_nl:
  "ls \<noteq> [] \<Longrightarrow> last ls \<noteq> [] \<Longrightarrow> join_nl ls \<noteq> [] \<and> last (join_nl ls) = last (last ls)"
proof (induction ls)
  case Nil
  then show ?case by simp
next
  case (Cons l ls)
  show ?case
  proof (cases "ls = []")
    case True
    with Cons.prems show ?thesis by simp
  next
    case False
    with Cons have "join_nl ls \<noteq> [] \<and> last (join_nl ls) = last (last ls)" by simp
    with False show ?thesis by (simp add: join_nl_Cons)
  qed
qed

lemma last_numbered:
  "bs \<noteq> [] \<Longrightarrow> \<exists>n. last (numbered i bs) = n @ last bs"
proof (induction bs arbitrary: i)
  case Nil
  then show ?case by simp
next
  case (Cons b bs)
  show ?case
  proof (cases "bs = []")
    case True
    have "str_nat (i + 1) @ ''. '' @ b = (str_nat (i + 1) @ ''. '') @ b" by simp
    with True show ?thesis by (simp del: append_assoc)
  next
    case False
    from Cons.IH [OF this, of "i + 1"] obtain n where "last (numbered (i + 1) bs) = n @ last bs"
      by blast
    moreover from False have "numbered (i + 1) bs \<noteq> []"
      using length_numbered [of "i + 1" bs] by auto
    ultimately show ?thesis using False by simp
  qed
qed

lemma validate_coerce:
  assumes "\<forall>b \<in> set (bullets_of raw). \<not> contains b ''# Answer:''"
  shows "validate_and_trim_strict (coerce_to_template raw) =
     ''# Reasoning:'' @ LF # join_nl (numbered 0 (bullets_of raw))
       @ LF # ''# Answer:'' @ LF # ''Insecure''"
proof -
  define bs where "bs = bullets_of raw"
  define J where "J = join_nl (numbered 0 bs)"
  define pre where "pre = ''# Reasoning:'' @ LF # J @ [LF]"
  have bne: "bs \<noteq> []"
    unfolding bs_def using length_bullets_of [of raw] by auto
  then have nne: "numbered 0 bs \<noteq> []"
    using length_numbered [of 0 bs] by auto
  from last_numbered [OF bne, of 0] obtain n where ln: "last (numbered 0 bs) = n @ last bs"
    by blast
  from bne have "last bs \<in> set bs" by simp
  with bullets_of_trimmed [of "last bs" raw]
  have lb: "last bs \<noteq> []" "\<not> isspace (last (last bs))"
    unfolding bs_def by simp_all
  from ln lb(1) have "last (numbered 0 bs) \<noteq> []" "last (last (numbered 0 bs)) = last (last bs)"
    by simp_all
  with last_join_nl [OF nne] have Jne: "J \<noteq> []" and Jl: "last J = last (last bs)"
    unfolding J_def by simp_all
  \<comment> \<open>the document\<close>
  have doc: "coerce_to_template raw = pre @ LF # ''# Answer:'' @ LF # ''Insecure'' @ []"
    unfolding pre_def J_def bs_def by (simp add: coerce_to_template_eq)
  have sw: "startswith pre ''# Reasoning:''"
    unfolding pre_def by (rule startswith_append)
  \<comment> \<open>no answer header before the last block\<close>
  from assms have "\<forall>b \<in> set bs. find_str b ''# Answer:'' = None"
    unfolding bs_def contains_def by simp
  then have "\<forall>l \<in> set (numbered 0 bs). find_str l ''# Answer:'' = None"
    by (rule find_str_numbered)
  with hdr_no_LF hdr_nonempty have fJ: "find_str J ''# Answer:'' = None"
    unfolding J_def by (rule find_str_join)
  have f0: "find_str ''# Reasoning:'' ''# Answer:'' = None" "find_str [] ''# Answer:'' = None"
    by code_simp+
  have "find_str (J @ LF # []) ''# Answer:'' = None"
    unfolding find_str_skip [OF hdr_no_LF] by (simp only: fJ f0 option.case option.map)
  then have "find_str (''# Reasoning:'' @ LF # (J @ [LF])) ''# Answer:'' = None"
    unfolding find_str_skip [OF hdr_no_LF] by (simp only: f0 option.case option.map)
  then have nf: "find_str pre ''# Answer:'' = None"
    unfolding pre_def .
  have tf: "\<forall>c \<in> set ''Insecure''. \<not> is_linebreak c" "strip ''Insecure'' = ''Insecure''"
    by code_simp+
  have r0: "([]::string) = [] \<or> hd ([]::string) = LF" by simp
  \<comment> \<open>the head without the blank line\<close>
  have "rstrip ((''# Reasoning:'' @ LF # J) @ [LF]) = rstrip (''# Reasoning:'' @ LF # J)"
    by (rule rstrip_append_space) simp
  moreover have "rstrip (''# Reasoning:'' @ LF # J) = ''# Reasoning:'' @ LF # J"
  proof (rule rstrip_noop)
    show "''# Reasoning:'' @ LF # J \<noteq> []" by simp
    have "last (''# Reasoning:'' @ LF # J) = last J" using Jne by simp
    with Jl lb(2) show "\<not> isspace (last (''# Reasoning:'' @ LF # J))" by simp
  qed
  ultimately have rp: "rstrip pre = ''# Reasoning:'' @ LF # J"
    unfolding pre_def by simp
  from validate_first_block [OF sw nf tf(1) r0]
  have "validate_and_trim_strict (pre @ LF # ''# Answer:'' @ LF # ''Insecure'' @ []) =
      rstrip pre @ LF # ''# Answer:'' @ LF # ''Insecure''"
    by (simp only: tf(2) simp_thms if_True)
  then show ?thesis
    unfolding doc rp unfolding J_def bs_def by simp
qed

lemma run_answer_eq:
  "run_with_vllm_direct_answer text =
     (if validate_and_trim_strict text = [] then coerce_to_template text
      else validate_and_trim_strict text)"
  by (simp add: run_with_vllm_direct_answer_def Let_def)

lemma coerce_nonempty: "coerce_to_template raw \<noteq> []"
  by (simp add: coerce_to_template_eq)

lemma run_answer_nonempty: "run_with_vllm_direct_answer text \<noteq> []"
  by (simp add: run_answer_eq coerce_nonempty)

lemma parse_run_answer:
  "parse_final_answer (JStr (run_with_vllm_direct_answer text)) = ''Secure''
   \<or> parse_final_answer (JStr (run_with_vllm_direct_answer text)) = ''Insecure''"
proof (cases "validate_and_trim_strict text = []")
  case True
  then have "run_with_vllm_direct_answer text = coerce_to_template text"
    by (simp add: run_answer_eq)
  with parse_coerce [of "text"] show ?thesis by simp
next
  case False
  then have "run_with_vllm_direct_answer text = validate_and_trim_strict text"
    by (simp add: run_answer_eq)
  with parse_validate [OF False] show ?thesis by simp
qed

text \<open>
  C10 (as amended). The recorded answer is the validated text when that is not empty and the
  coerced document otherwise, and it is never empty. An answer that comes from the validator
  is returned unchanged when the validator is applied to it again, and its final line is
  \<open>Secure\<close> or \<open>Insecure\<close>. An answer that comes from the coercion is accepted by the validator,
  which returns it without the blank line and with the final line \<open>Insecure\<close>, when none of its
  bullets contains \<open># Answer:\<close>. In every case the verdict extraction of the aggregation
  scripts reads \<open>Secure\<close> or \<open>Insecure\<close> from the recorded answer.
\<close>

theorem recorded_answer_revalidates:
  "run_with_vllm_direct_answer text =
     (if validate_and_trim_strict text = [] then coerce_to_template text
      else validate_and_trim_strict text)
   \<and> run_with_vllm_direct_answer text \<noteq> []
   \<and> (validate_and_trim_strict text \<noteq> [] \<longrightarrow>
        validate_and_trim_strict (run_with_vllm_direct_answer text)
          = run_with_vllm_direct_answer text
        \<and> (\<exists>body. run_with_vllm_direct_answer text = body @ LF # ''Secure''
              \<or> run_with_vllm_direct_answer text = body @ LF # ''Insecure''))
   \<and> (validate_and_trim_strict text = []
        \<and> (\<forall>b \<in> set (bullets_of text). \<not> contains b ''# Answer:'') \<longrightarrow>
        validate_and_trim_strict (run_with_vllm_direct_answer text)
          = ''# Reasoning:'' @ LF # join_nl (numbered 0 (bullets_of text))
              @ LF # ''# Answer:'' @ LF # ''Insecure'')
   \<and> (parse_final_answer (JStr (run_with_vllm_direct_answer text)) = ''Secure''
        \<or> parse_final_answer (JStr (run_with_vllm_direct_answer text)) = ''Insecure'')"
proof -
  note c1 = run_answer_eq [of "text"]
  note c2 = run_answer_nonempty [of "text"]
  have c3: "validate_and_trim_strict text \<noteq> [] \<longrightarrow>
        validate_and_trim_strict (run_with_vllm_direct_answer text)
          = run_with_vllm_direct_answer text
        \<and> (\<exists>body. run_with_vllm_direct_answer text = body @ LF # ''Secure''
              \<or> run_with_vllm_direct_answer text = body @ LF # ''Insecure'')"
  proof
    assume ne: "validate_and_trim_strict text \<noteq> []"
    then have r: "run_with_vllm_direct_answer text = validate_and_trim_strict text"
      by (simp add: run_answer_eq)
    show "validate_and_trim_strict (run_with_vllm_direct_answer text)
          = run_with_vllm_direct_answer text
        \<and> (\<exists>body. run_with_vllm_direct_answer text = body @ LF # ''Secure''
              \<or> run_with_vllm_direct_answer text = body @ LF # ''Insecure'')"
      unfolding r using validate_idem [OF ne] validate_final_line [OF ne] by (rule conjI)
  qed
  have c4: "validate_and_trim_strict text = []
        \<and> (\<forall>b \<in> set (bullets_of text). \<not> contains b ''# Answer:'') \<longrightarrow>
        validate_and_trim_strict (run_with_vllm_direct_answer text)
          = ''# Reasoning:'' @ LF # join_nl (numbered 0 (bullets_of text))
              @ LF # ''# Answer:'' @ LF # ''Insecure''"
  proof
    assume h: "validate_and_trim_strict text = []
        \<and> (\<forall>b \<in> set (bullets_of text). \<not> contains b ''# Answer:'')"
    from h [THEN conjunct1] have r: "run_with_vllm_direct_answer text = coerce_to_template text"
      by (simp add: run_answer_eq)
    show "validate_and_trim_strict (run_with_vllm_direct_answer text)
          = ''# Reasoning:'' @ LF # join_nl (numbered 0 (bullets_of text))
              @ LF # ''# Answer:'' @ LF # ''Insecure''"
      unfolding r using h [THEN conjunct2] by (rule validate_coerce)
  qed
  note c5 = parse_run_answer [of "text"]
  show ?thesis
    by (rule conjI [OF c1 conjI [OF c2 conjI [OF c3 conjI [OF c4 c5]]]])
qed

theorem recorded_answer_revalidates_witness:
  "validate_and_trim_strict (run_with_vllm_direct_answer trailing_text)
     = run_with_vllm_direct_answer trailing_text
   \<and> validate_and_trim_strict (run_with_vllm_direct_answer [])
     = ''# Reasoning:\<newline>1. No explicit reasoning found.\<newline># Answer:\<newline>Insecure''"
proof -
  have ne: "validate_and_trim_strict trailing_text \<noteq> []"
    by code_simp
  note w1 = recorded_answer_revalidates [of trailing_text, THEN conjunct2, THEN conjunct2,
      THEN conjunct1, THEN mp, OF ne, THEN conjunct1]
  have h1: "validate_and_trim_strict [] = []"
    by code_simp
  have h2: "\<forall>b \<in> set (bullets_of []). \<not> contains b ''# Answer:''"
    by code_simp
  note c4 = recorded_answer_revalidates [of "[]", THEN conjunct2, THEN conjunct2,
      THEN conjunct2, THEN conjunct1, THEN mp, OF conjI [OF h1 h2]]
  have e: "''# Reasoning:'' @ LF # join_nl (numbered 0 (bullets_of []))
              @ LF # ''# Answer:'' @ LF # ''Insecure''
      = ''# Reasoning:\<newline>1. No explicit reasoning found.\<newline># Answer:\<newline>Insecure''"
    by code_simp
  have w2: "validate_and_trim_strict (run_with_vllm_direct_answer [])
     = ''# Reasoning:\<newline>1. No explicit reasoning found.\<newline># Answer:\<newline>Insecure''"
    using c4 e by (rule trans)
  show ?thesis
    by (rule conjI [OF w1 w2])
qed

text \<open>
  The raw text \<open># Answer:\<close> is rejected by the validator, its coerced document carries the
  text as a bullet, and the validator rejects that document: it stops at the header inside
  the bullet, which is followed by a blank line.
\<close>

theorem recorded_answer_rejected_counterexample:
  "validate_and_trim_strict ''# Answer:'' = []
   \<and> run_with_vllm_direct_answer ''# Answer:''
     = ''# Reasoning:\<newline>1. # Answer:\<newline>\<newline># Answer:\<newline>Insecure''
   \<and> validate_and_trim_strict (run_with_vllm_direct_answer ''# Answer:'') = []"
  by code_simp

end
